theory Spec2Isabelle
  imports Main
begin

section \<open>C integers, arrays and undefined behaviour\<close>

text \<open>
  The scheduler of \<^verbatim>\<open>parta.c\<close> works on C \<^verbatim>\<open>int\<close> values. Signed overflow, a remainder
  by zero and an array access outside the allocated block are undefined behaviour in C:
  the model stops there with an \<open>error\<close> instead of inventing a value. An \<^verbatim>\<open>int\<close> has
  32 bits, as on every mainstream ABI.
\<close>

datatype error = OutOfBounds | DivByZero | Overflow

definition INT_MAX :: int where
  "INT_MAX = 2147483647"

definition INT_MIN :: int where
  "INT_MIN = - 2147483648"

definition c_add :: "int \<Rightarrow> int \<Rightarrow> error + int" where
  "c_add a b = (if INT_MIN \<le> a + b \<and> a + b \<le> INT_MAX then Inr (a + b) else Inl Overflow)"

definition c_sub :: "int \<Rightarrow> int \<Rightarrow> error + int" where
  "c_sub a b = (if INT_MIN \<le> a - b \<and> a - b \<le> INT_MAX then Inr (a - b) else Inl Overflow)"

text \<open>The operator \<^verbatim>\<open>%\<close> of C truncates towards zero: the remainder has the sign of the dividend.\<close>

definition c_rem :: "int \<Rightarrow> int \<Rightarrow> error + int" where
  "c_rem a b =
     (if b = 0 then Inl DivByZero
      else if a = INT_MIN \<and> b = - 1 then Inl Overflow
      else Inr (sgn a * (\<bar>a\<bar> mod \<bar>b\<bar>)))"

text \<open>
  Modelled from the spec: \<^verbatim>\<open>struct pcb\<close> is declared in \<^verbatim>\<open>parta.h\<close>, which is not among the
  sources; its three \<^verbatim>\<open>int\<close> fields are the ones \<^verbatim>\<open>parta.c\<close> reads and writes (the spec's
  \<open>id\<close>, \<open>remaining_burst\<close> and \<open>accumulated_wait\<close>).
\<close>

record pcb =
  pid :: int
  burst_left :: int
  wait :: int

text \<open>
  A table is the array \<^verbatim>\<open>procs\<close>; its length is the number of allocated elements. The C
  functions receive the length again as \<^verbatim>\<open>plen\<close>, and so do their models. \<open>proc_at\<close> is the
  read \<^verbatim>\<open>procs[i]\<close>.
\<close>

definition proc_at :: "pcb list \<Rightarrow> int \<Rightarrow> error + pcb" where
  "proc_at procs i =
     (if 0 \<le> i \<and> i < int (length procs) then Inr (procs ! nat i) else Inl OutOfBounds)"

section \<open>The process table\<close>

text \<open>
  \<^verbatim>\<open>init_procs\<close>: \<open>malloc_ok\<close> says whether the allocation succeeded; the result \<open>None\<close> is the
  \<^verbatim>\<open>NULL\<close> pointer of the early return. Reading \<^verbatim>\<open>bursts[i]\<close> beyond the given bursts is out
  of bounds.
\<close>

definition init_procs :: "bool \<Rightarrow> int list \<Rightarrow> int \<Rightarrow> error + pcb list option" where
  "init_procs malloc_ok bursts blen =
     (if \<not> malloc_ok then Inr None
      else if int (length bursts) < blen then Inl OutOfBounds
      else Inr (Some (map (\<lambda>i. \<lparr>pid = int i, burst_left = bursts ! i, wait = 0\<rparr>) [0..<nat blen])))"

text \<open>
  \<^verbatim>\<open>run_proc\<close>: the assignment to \<^verbatim>\<open>procs[current].burst_left\<close>, then the \<^verbatim>\<open>for\<close> loop over
  \<open>i\<close>. The test \<^verbatim>\<open>i != current && procs[i].burst_left > 0\<close> reads \<^verbatim>\<open>procs[i]\<close> only when
  \<open>i\<close> differs from \<open>current\<close>. The counter stays below \<open>plen\<close>, so \<^verbatim>\<open>i++\<close> cannot overflow.
\<close>

function run_proc_loop :: "pcb list \<Rightarrow> int \<Rightarrow> int \<Rightarrow> int \<Rightarrow> int \<Rightarrow> error + pcb list" where
  "run_proc_loop procs plen current amount i =
     (if i < plen then
        (if i \<noteq> current then
           (case proc_at procs i of
              Inl e \<Rightarrow> Inl e
            | Inr p \<Rightarrow>
                if 0 < burst_left p then
                  (case c_add (wait p) amount of
                     Inl e \<Rightarrow> Inl e
                   | Inr w \<Rightarrow>
                       run_proc_loop (procs[nat i := p\<lparr>wait := w\<rparr>]) plen current amount (i + 1))
                else run_proc_loop procs plen current amount (i + 1))
         else run_proc_loop procs plen current amount (i + 1))
      else Inr procs)"
  by pat_completeness auto
termination
  by (relation "measure (\<lambda>(procs, plen, current, amount, i). nat (plen - i))") auto

definition run_proc :: "pcb list \<Rightarrow> int \<Rightarrow> int \<Rightarrow> int \<Rightarrow> error + pcb list" where
  "run_proc procs plen current amount =
     (case proc_at procs current of
        Inl e \<Rightarrow> Inl e
      | Inr p \<Rightarrow>
          (case c_sub (burst_left p) amount of
             Inl e \<Rightarrow> Inl e
           | Inr b \<Rightarrow>
               run_proc_loop (procs[nat current := p\<lparr>burst_left := b\<rparr>]) plen current amount 0))"

section \<open>First come, first served\<close>

text \<open>
  \<^verbatim>\<open>fcfs_run\<close>: the \<^verbatim>\<open>for\<close> loop with its counter \<open>i\<close> and the running \<open>current_time\<close>. The
  result is the returned time together with the table as the run leaves it.
\<close>

function fcfs_loop :: "pcb list \<Rightarrow> int \<Rightarrow> int \<Rightarrow> int \<Rightarrow> error + int \<times> pcb list" where
  "fcfs_loop procs plen i current_time =
     (if i < plen then
        (case proc_at procs i of
           Inl e \<Rightarrow> Inl e
         | Inr p \<Rightarrow>
             (case run_proc procs plen i (burst_left p) of
                Inl e \<Rightarrow> Inl e
              | Inr procs' \<Rightarrow>
                  (case c_add current_time (burst_left p) of
                     Inl e \<Rightarrow> Inl e
                   | Inr t \<Rightarrow> fcfs_loop procs' plen (i + 1) t)))
      else Inr (current_time, procs))"
  by pat_completeness auto
termination
  by (relation "measure (\<lambda>(procs, plen, i, current_time). nat (plen - i))") auto

definition fcfs_run :: "pcb list \<Rightarrow> int \<Rightarrow> error + int \<times> pcb list" where
  "fcfs_run procs plen = fcfs_loop procs plen 0 0"

section \<open>Round robin\<close>

text \<open>
  \<^verbatim>\<open>rr_next\<close>: the \<^verbatim>\<open>while\<close> loop has no bound of its own, so it is a partial function in
  the option monad: \<open>None\<close> is a scan that never ends.
\<close>

partial_function (option) rr_next_loop ::
  "pcb list \<Rightarrow> int \<Rightarrow> int \<Rightarrow> int \<Rightarrow> (error + int) option" where
  [code]: "rr_next_loop procs plen start next =
     (case proc_at procs next of
        Inl e \<Rightarrow> Some (Inl e)
      | Inr p \<Rightarrow>
          if burst_left p = 0 then
            (case c_add next 1 of
               Inl e \<Rightarrow> Some (Inl e)
             | Inr n1 \<Rightarrow>
                 (case c_rem n1 plen of
                    Inl e \<Rightarrow> Some (Inl e)
                  | Inr next' \<Rightarrow>
                      if next' = start then Some (Inr (- 1))
                      else rr_next_loop procs plen start next'))
          else Some (Inr next))"

definition rr_next :: "int \<Rightarrow> pcb list \<Rightarrow> int \<Rightarrow> (error + int) option" where
  "rr_next current procs plen =
     (case c_add current 1 of
        Inl e \<Rightarrow> Some (Inl e)
      | Inr c1 \<Rightarrow>
          (case c_rem c1 plen of
             Inl e \<Rightarrow> Some (Inl e)
           | Inr next \<Rightarrow> rr_next_loop procs plen next next))"

text \<open>
  \<^verbatim>\<open>rr_run\<close>: \<open>rr_turn\<close> is the first half of the body of \<^verbatim>\<open>while (1)\<close>, the turn of the
  process \<open>current\<close>; \<open>rr_loop\<close> is the loop. The counter \<open>turns\<close> is not a variable of the C
  code: it counts the calls of \<^verbatim>\<open>run_proc\<close> made so far and nothing else depends on it.
  \<open>rr_run\<close> forgets it: its result is the returned time and the table as the run leaves it.
\<close>

definition rr_turn ::
  "pcb list \<Rightarrow> int \<Rightarrow> int \<Rightarrow> int \<Rightarrow> int \<Rightarrow> nat \<Rightarrow> error + pcb list \<times> int \<times> nat" where
  "rr_turn procs plen quantum current current_time turns =
     (case proc_at procs current of
        Inl e \<Rightarrow> Inl e
      | Inr p \<Rightarrow>
          if 0 < burst_left p then
            (let amount = (if burst_left p < quantum then burst_left p else quantum) in
               case run_proc procs plen current amount of
                 Inl e \<Rightarrow> Inl e
               | Inr procs' \<Rightarrow>
                   (case c_add current_time amount of
                      Inl e \<Rightarrow> Inl e
                    | Inr t \<Rightarrow> Inr (procs', t, Suc turns)))
          else Inr (procs, current_time, turns))"

partial_function (option) rr_loop ::
  "pcb list \<Rightarrow> int \<Rightarrow> int \<Rightarrow> int \<Rightarrow> int \<Rightarrow> nat \<Rightarrow> (error + int \<times> pcb list \<times> nat) option" where
  [code]: "rr_loop procs plen quantum current current_time turns =
     (case rr_turn procs plen quantum current current_time turns of
        Inl e \<Rightarrow> Some (Inl e)
      | Inr (procs', t, turns') \<Rightarrow>
          (case rr_next current procs' plen of
             None \<Rightarrow> None
           | Some (Inl e) \<Rightarrow> Some (Inl e)
           | Some (Inr next) \<Rightarrow>
               if next = - 1 then Some (Inr (t, procs', turns'))
               else rr_loop procs' plen quantum next t turns'))"

definition forget_turns ::
  "(error + int \<times> pcb list \<times> nat) option \<Rightarrow> (error + int \<times> pcb list) option" where
  "forget_turns r =
     (case r of
        None \<Rightarrow> None
      | Some (Inl e) \<Rightarrow> Some (Inl e)
      | Some (Inr (t, procs', turns)) \<Rightarrow> Some (Inr (t, procs')))"

definition rr_run :: "pcb list \<Rightarrow> int \<Rightarrow> int \<Rightarrow> (error + int \<times> pcb list) option" where
  "rr_run procs plen quantum = forget_turns (rr_loop procs plen quantum 0 0 0)"

section \<open>Auxiliary notions of the proofs\<close>

text \<open>
  None of the following is code of \<^verbatim>\<open>parta.c\<close>: these are the notions the statements and
  proofs below are written in. \<open>in_int\<close> is the range of an \<^verbatim>\<open>int\<close>.
\<close>

definition in_int :: "int \<Rightarrow> bool" where
  "in_int x \<longleftrightarrow> INT_MIN \<le> x \<and> x \<le> INT_MAX"

text \<open>
  \<open>wait_from\<close> is what the \<^verbatim>\<open>for\<close> loop of \<^verbatim>\<open>run_proc\<close> makes of a table from the index \<open>j\<close>
  on, and \<open>wait_ok\<close> says that none of its additions leaves the range of an \<^verbatim>\<open>int\<close>.
\<close>

definition wait_from :: "pcb list \<Rightarrow> nat \<Rightarrow> int \<Rightarrow> nat \<Rightarrow> pcb list" where
  "wait_from procs c amount j =
     map (\<lambda>k. if j \<le> k \<and> k \<noteq> c \<and> 0 < burst_left (procs ! k)
              then (procs ! k)\<lparr>wait := wait (procs ! k) + amount\<rparr> else procs ! k)
       [0..<length procs]"

definition wait_ok :: "pcb list \<Rightarrow> nat \<Rightarrow> int \<Rightarrow> nat \<Rightarrow> bool" where
  "wait_ok procs c amount j \<longleftrightarrow>
     (\<forall>k<length procs. j \<le> k \<and> k \<noteq> c \<and> 0 < burst_left (procs ! k) \<longrightarrow>
        in_int (wait (procs ! k) + amount))"

text \<open>
  \<open>advance\<close> is the effect the spec gives for Advance (section 4.1): the target loses
  \<open>amount\<close> of its remaining burst and every other process that still has burst left waits
  \<open>amount\<close> longer. \<open>advance_ok\<close> says that the difference and the sums are \<^verbatim>\<open>int\<close>s.
\<close>

definition advance :: "pcb list \<Rightarrow> nat \<Rightarrow> int \<Rightarrow> pcb list" where
  "advance procs c amount =
     map (\<lambda>k. if k = c then (procs ! k)\<lparr>burst_left := burst_left (procs ! k) - amount\<rparr>
              else if 0 < burst_left (procs ! k) then (procs ! k)\<lparr>wait := wait (procs ! k) + amount\<rparr>
              else procs ! k)
       [0..<length procs]"

definition advance_ok :: "pcb list \<Rightarrow> nat \<Rightarrow> int \<Rightarrow> bool" where
  "advance_ok procs c amount \<longleftrightarrow>
     in_int (burst_left (procs ! c) - amount) \<and>
     (\<forall>k<length procs. k \<noteq> c \<and> 0 < burst_left (procs ! k) \<longrightarrow>
        in_int (wait (procs ! k) + amount))"

text \<open>
  \<open>fcfs_state bursts i\<close> is the table of a first-come-first-served run on \<open>bursts\<close> when the
  processes before \<open>i\<close> have run: they have no burst left, and a process with a positive
  burst has waited for the bursts of those that ran before it. \<open>fcfs_state bursts 0\<close> is the
  table as \<^verbatim>\<open>init_procs\<close> builds it.
\<close>

definition prefix_sum :: "int list \<Rightarrow> nat \<Rightarrow> int" where
  "prefix_sum bursts i = sum_list (take i bursts)"

definition fcfs_state :: "int list \<Rightarrow> nat \<Rightarrow> pcb list" where
  "fcfs_state bursts i =
     map (\<lambda>k. \<lparr>pid = int k,
               burst_left = (if k < i then 0 else bursts ! k),
               wait = (if 0 < bursts ! k then prefix_sum bursts (min k i) else 0)\<rparr>)
       [0..<length bursts]"

text \<open>
  \<open>scan_from procs start j\<close> is the first index with a remaining burst other than 0 among
  the probes \<open>(start + k) mod len\<close> for \<open>k = j, \<dots>, len - 1\<close>, and \<open>- 1\<close> if there is none:
  the test of the \<^verbatim>\<open>while\<close> loop in \<^verbatim>\<open>rr_next\<close> is \<^verbatim>\<open>burst_left == 0\<close>.
\<close>

definition scan_from :: "pcb list \<Rightarrow> nat \<Rightarrow> nat \<Rightarrow> int" where
  "scan_from procs start j =
     (case find (\<lambda>i. burst_left (procs ! i) \<noteq> 0)
             (map (\<lambda>k. (start + k) mod length procs) [j..<length procs]) of
        None \<Rightarrow> - 1
      | Some i \<Rightarrow> int i)"

text \<open>\<open>work_left\<close> is the sum of the remaining bursts of a table.\<close>

definition work_left :: "pcb list \<Rightarrow> int" where
  "work_left procs = sum_list (map burst_left procs)"

text \<open>
  \<open>next_candidate\<close> is NextCandidate as the spec words it (section 4.3): scan forward
  circularly from \<open>(current + 1) mod len\<close> and return the first index met whose remaining
  burst is positive, or \<open>- 1\<close> for "none" when a full pass finds no such index.
\<close>

definition next_candidate :: "pcb list \<Rightarrow> nat \<Rightarrow> int" where
  "next_candidate procs current =
     (case find (\<lambda>i. 0 < burst_left (procs ! i))
             (map (\<lambda>k. ((current + 1) mod length procs + k) mod length procs)
                [0..<length procs]) of
        None \<Rightarrow> - 1
      | Some i \<Rightarrow> int i)"

section \<open>What \<^verbatim>\<open>run_proc\<close> computes\<close>

lemma c_add_eq: "c_add a b = (if in_int (a + b) then Inr (a + b) else Inl Overflow)"
  by (simp add: c_add_def in_int_def)

lemma c_sub_eq: "c_sub a b = (if in_int (a - b) then Inr (a - b) else Inl Overflow)"
  by (simp add: c_sub_def in_int_def)

lemma proc_at_nat: "k < length procs \<Longrightarrow> proc_at procs (int k) = Inr (procs ! k)"
  by (simp add: proc_at_def)

lemma wait_from_length [simp]: "length (wait_from procs c amount j) = length procs"
  by (simp add: wait_from_def)

lemma wait_from_nth:
  "k < length procs \<Longrightarrow>
   wait_from procs c amount j ! k =
     (if j \<le> k \<and> k \<noteq> c \<and> 0 < burst_left (procs ! k)
      then (procs ! k)\<lparr>wait := wait (procs ! k) + amount\<rparr> else procs ! k)"
  by (simp add: wait_from_def)

lemma wait_from_end: "length procs \<le> j \<Longrightarrow> wait_from procs c amount j = procs"
  by (rule nth_equalityI) (simp_all add: wait_from_nth)

lemma wait_from_skip:
  "j < length procs \<Longrightarrow> j = c \<or> \<not> 0 < burst_left (procs ! j) \<Longrightarrow>
   wait_from procs c amount j = wait_from procs c amount (Suc j)"
  by (rule nth_equalityI) (auto simp add: wait_from_nth Suc_le_eq le_less)

lemma wait_from_step:
  "j < length procs \<Longrightarrow> j \<noteq> c \<Longrightarrow> 0 < burst_left (procs ! j) \<Longrightarrow>
   wait_from (procs[j := (procs ! j)\<lparr>wait := wait (procs ! j) + amount\<rparr>]) c amount (Suc j) =
   wait_from procs c amount j"
  by (rule nth_equalityI) (auto simp add: wait_from_nth nth_list_update Suc_le_eq le_less)

lemma wait_ok_skip:
  "j < length procs \<Longrightarrow> j = c \<or> \<not> 0 < burst_left (procs ! j) \<Longrightarrow>
   wait_ok procs c amount j = wait_ok procs c amount (Suc j)"
proof -
  have split: "\<And>k. j \<le> k \<longleftrightarrow> k = j \<or> Suc j \<le> k"
    by auto
  show "j < length procs \<Longrightarrow> j = c \<or> \<not> 0 < burst_left (procs ! j) \<Longrightarrow> ?thesis"
    unfolding wait_ok_def split by auto
qed

lemma wait_ok_step:
  "j < length procs \<Longrightarrow> j \<noteq> c \<Longrightarrow> 0 < burst_left (procs ! j) \<Longrightarrow>
   wait_ok procs c amount j \<longleftrightarrow>
     in_int (wait (procs ! j) + amount) \<and>
     wait_ok (procs[j := (procs ! j)\<lparr>wait := wait (procs ! j) + amount\<rparr>]) c amount (Suc j)"
proof -
  have split: "\<And>k. j \<le> k \<longleftrightarrow> k = j \<or> Suc j \<le> k"
    by auto
  show "j < length procs \<Longrightarrow> j \<noteq> c \<Longrightarrow> 0 < burst_left (procs ! j) \<Longrightarrow> ?thesis"
    unfolding wait_ok_def split
    by (auto simp add: nth_list_update)
qed

declare run_proc_loop.simps [simp del]

lemma run_proc_loop_eq:
  "j \<le> length procs \<Longrightarrow>
   run_proc_loop procs (int (length procs)) (int c) amount (int j) =
     (if wait_ok procs c amount j then Inr (wait_from procs c amount j) else Inl Overflow)"
proof (induction "length procs - j" arbitrary: procs j)
  case 0
  then have "j = length procs" by simp
  then show ?case
    using run_proc_loop.simps [of procs "int (length procs)" "int c" amount "int j"]
    by (simp add: wait_from_end wait_ok_def)
next
  case (Suc d)
  then have j: "j < length procs" by simp
  have next_j: "\<And>n. int n + 1 = int (Suc n)" by simp
  show ?case
  proof (cases "j = c \<or> \<not> 0 < burst_left (procs ! j)")
    case True
    have "run_proc_loop procs (int (length procs)) (int c) amount (int j) =
          run_proc_loop procs (int (length procs)) (int c) amount (int (Suc j))"
      using j True run_proc_loop.simps [of procs "int (length procs)" "int c" amount "int j"]
      by (auto simp add: proc_at_nat next_j simp del: of_nat_Suc)
    also have "\<dots> = (if wait_ok procs c amount (Suc j) then Inr (wait_from procs c amount (Suc j))
                      else Inl Overflow)"
      using Suc.hyps(1) [of procs "Suc j"] Suc.hyps(2) j by simp
    finally show ?thesis
      using wait_ok_skip [OF j True] wait_from_skip [OF j True] by simp
  next
    case False
    then have live: "j \<noteq> c" "0 < burst_left (procs ! j)" by simp_all
    let ?w = "wait (procs ! j) + amount"
    let ?procs = "procs[j := (procs ! j)\<lparr>wait := ?w\<rparr>]"
    show ?thesis
    proof (cases "in_int ?w")
      case True
      have "run_proc_loop procs (int (length procs)) (int c) amount (int j) =
            run_proc_loop ?procs (int (length ?procs)) (int c) amount (int (Suc j))"
        using j live True run_proc_loop.simps [of procs "int (length procs)" "int c" amount "int j"]
        by (simp add: proc_at_nat c_add_eq next_j del: of_nat_Suc)
      also have "\<dots> = (if wait_ok ?procs c amount (Suc j) then Inr (wait_from ?procs c amount (Suc j))
                        else Inl Overflow)"
        using Suc.hyps(1) [of ?procs "Suc j"] Suc.hyps(2) j by simp
      finally show ?thesis
        using wait_ok_step [OF j live] wait_from_step [OF j live] True by simp
    next
      case False
      have "run_proc_loop procs (int (length procs)) (int c) amount (int j) = Inl Overflow"
        using j live False run_proc_loop.simps [of procs "int (length procs)" "int c" amount "int j"]
        by (simp add: proc_at_nat c_add_eq)
      then show ?thesis
        using wait_ok_step [OF j live] False by simp
    qed
  qed
qed


lemma advance_length [simp]: "length (advance procs c amount) = length procs"
  by (simp add: advance_def)

lemma advance_nth:
  "k < length procs \<Longrightarrow>
   advance procs c amount ! k =
     (if k = c then (procs ! k)\<lparr>burst_left := burst_left (procs ! k) - amount\<rparr>
      else if 0 < burst_left (procs ! k) then (procs ! k)\<lparr>wait := wait (procs ! k) + amount\<rparr>
      else procs ! k)"
  by (simp add: advance_def)

lemma run_proc_eq:
  assumes "c < length procs"
  shows "run_proc procs (int (length procs)) (int c) amount =
           (if advance_ok procs c amount then Inr (advance procs c amount) else Inl Overflow)"
proof -
  let ?b = "burst_left (procs ! c) - amount"
  let ?procs = "procs[c := (procs ! c)\<lparr>burst_left := ?b\<rparr>]"
  have loop: "run_proc_loop ?procs (int (length ?procs)) (int c) amount (int 0) =
          (if wait_ok ?procs c amount 0 then Inr (wait_from ?procs c amount 0) else Inl Overflow)"
    by (rule run_proc_loop_eq) simp
  have ok: "wait_ok ?procs c amount 0 \<longleftrightarrow>
        (\<forall>k<length procs. k \<noteq> c \<and> 0 < burst_left (procs ! k) \<longrightarrow> in_int (wait (procs ! k) + amount))"
    by (auto simp add: wait_ok_def nth_list_update)
  have res: "wait_from ?procs c amount 0 = advance procs c amount"
    using assms by (intro nth_equalityI) (auto simp add: wait_from_nth advance_nth nth_list_update)
  show ?thesis
    using assms loop ok res
    by (auto simp add: run_proc_def proc_at_nat c_sub_eq advance_ok_def)
qed

section \<open>First come, first served: the states of a run\<close>

declare fcfs_loop.simps [simp del]

lemma prefix_sum_0 [simp]: "prefix_sum bursts 0 = 0"
  by (simp add: prefix_sum_def)

lemma prefix_sum_Suc:
  "i < length bursts \<Longrightarrow> prefix_sum bursts (Suc i) = prefix_sum bursts i + bursts ! i"
  by (simp add: prefix_sum_def take_Suc_conv_app_nth)

lemma prefix_sum_all: "length bursts \<le> i \<Longrightarrow> prefix_sum bursts i = sum_list bursts"
  by (simp add: prefix_sum_def)

lemma prefix_sum_nonneg: "\<forall>b\<in>set bursts. 0 \<le> b \<Longrightarrow> 0 \<le> prefix_sum bursts i"
  unfolding prefix_sum_def by (rule sum_list_nonneg) (meson in_set_takeD)

lemma prefix_sum_add:
  "prefix_sum bursts (i + d) = prefix_sum bursts i + sum_list (take d (drop i bursts))"
  by (simp add: prefix_sum_def take_add)

lemma prefix_sum_mono:
  assumes "\<forall>b\<in>set bursts. 0 \<le> b" "i \<le> j"
  shows "prefix_sum bursts i \<le> prefix_sum bursts j"
proof -
  obtain d where d: "j = i + d"
    using assms(2) le_Suc_ex by blast
  have "\<And>b. b \<in> set (take d (drop i bursts)) \<Longrightarrow> 0 \<le> b"
    using assms(1) by (meson in_set_dropD in_set_takeD)
  then have "0 \<le> sum_list (take d (drop i bursts))"
    by (rule sum_list_nonneg)
  then show ?thesis
    unfolding d prefix_sum_add by simp
qed

lemma prefix_sum_le_total:
  "\<forall>b\<in>set bursts. 0 \<le> b \<Longrightarrow> prefix_sum bursts i \<le> sum_list bursts"
  using prefix_sum_mono [of bursts i "max i (length bursts)"]
  by (simp add: prefix_sum_all)

lemma fcfs_state_length [simp]: "length (fcfs_state bursts i) = length bursts"
  by (simp add: fcfs_state_def)

lemma fcfs_state_nth:
  "k < length bursts \<Longrightarrow>
   fcfs_state bursts i ! k =
     \<lparr>pid = int k, burst_left = (if k < i then 0 else bursts ! k),
      wait = (if 0 < bursts ! k then prefix_sum bursts (min k i) else 0)\<rparr>"
  by (simp add: fcfs_state_def)

lemma advance_fcfs_state:
  assumes "i < length bursts"
  shows "advance (fcfs_state bursts i) i (bursts ! i) = fcfs_state bursts (Suc i)"
proof (rule nth_equalityI)
  show "length (advance (fcfs_state bursts i) i (bursts ! i)) = length (fcfs_state bursts (Suc i))"
    by simp
next
  fix k
  assume "k < length (advance (fcfs_state bursts i) i (bursts ! i))"
  then have k: "k < length bursts" by simp
  consider "k < i" | "k = i" | "i < k" by linarith
  then show "advance (fcfs_state bursts i) i (bursts ! i) ! k = fcfs_state bursts (Suc i) ! k"
  proof cases
    case 1
    then show ?thesis
      using k by (simp add: advance_nth fcfs_state_nth min_def)
  next
    case 2
    then show ?thesis
      using k by (simp add: advance_nth fcfs_state_nth min_def)
  next
    case 3
    then have "min k i = i" "min k (Suc i) = Suc i" by simp_all
    then show ?thesis
      using k 3 assms by (simp add: advance_nth fcfs_state_nth prefix_sum_Suc)
  qed
qed

lemma advance_ok_fcfs_state:
  assumes "i < length bursts" "in_int (prefix_sum bursts (Suc i))"
  shows "advance_ok (fcfs_state bursts i) i (bursts ! i)"
  using assms
  by (auto simp add: advance_ok_def fcfs_state_nth prefix_sum_Suc min_def in_int_def INT_MIN_def INT_MAX_def)

lemma fcfs_loop_step:
  assumes "i < length bursts" "in_int (prefix_sum bursts (Suc i))"
  shows "fcfs_loop (fcfs_state bursts i) (int (length bursts)) (int i) (prefix_sum bursts i) =
         fcfs_loop (fcfs_state bursts (Suc i)) (int (length bursts)) (int (Suc i)) (prefix_sum bursts (Suc i))"
proof -
  have next_i: "int i + 1 = int (Suc i)" by simp
  have run: "run_proc (fcfs_state bursts i) (int (length bursts)) (int i) (bursts ! i) =
        Inr (fcfs_state bursts (Suc i))"
    using run_proc_eq [of i "fcfs_state bursts i" "bursts ! i"] assms
    by (simp add: advance_ok_fcfs_state advance_fcfs_state)
  show ?thesis
    using assms run
      fcfs_loop.simps [of "fcfs_state bursts i" "int (length bursts)" "int i" "prefix_sum bursts i"]
    by (simp add: proc_at_nat fcfs_state_nth c_add_eq prefix_sum_Suc next_i del: of_nat_Suc)
qed

lemma fcfs_loop_end:
  "fcfs_loop procs (int n) (int n) t = Inr (t, procs)"
  using fcfs_loop.simps [of procs "int n" "int n" t] by simp

lemma in_int_prefix_sum:
  "\<forall>b\<in>set bursts. 0 \<le> b \<Longrightarrow> sum_list bursts \<le> INT_MAX \<Longrightarrow> in_int (prefix_sum bursts i)"
  using prefix_sum_nonneg [of bursts i] prefix_sum_le_total [of bursts i]
  by (simp add: in_int_def INT_MIN_def)

lemma fcfs_loop_from:
  assumes "\<forall>b\<in>set bursts. 0 \<le> b" "sum_list bursts \<le> INT_MAX" "i \<le> length bursts"
  shows "fcfs_loop (fcfs_state bursts i) (int (length bursts)) (int i) (prefix_sum bursts i) =
         Inr (sum_list bursts, fcfs_state bursts (length bursts))"
  using assms(3)
proof (induction "length bursts - i" arbitrary: i)
  case 0
  then have "i = length bursts" by simp
  then show ?case
    by (simp add: fcfs_loop_end prefix_sum_all)
next
  case (Suc d)
  then have i: "i < length bursts" by simp
  have "fcfs_loop (fcfs_state bursts i) (int (length bursts)) (int i) (prefix_sum bursts i) =
        fcfs_loop (fcfs_state bursts (Suc i)) (int (length bursts)) (int (Suc i)) (prefix_sum bursts (Suc i))"
    using i assms(1,2) by (intro fcfs_loop_step in_int_prefix_sum)
  also have "\<dots> = Inr (sum_list bursts, fcfs_state bursts (length bursts))"
    using Suc.hyps(1) [of "Suc i"] Suc.hyps(2) i by simp
  finally show ?case .
qed

lemma init_procs_fcfs_state:
  "init_procs True bursts (int (length bursts)) = Inr (Some (fcfs_state bursts 0))"
  by (simp add: init_procs_def fcfs_state_def)

section \<open>Round robin: what \<^verbatim>\<open>rr_next\<close> returns\<close>

lemma c_rem_nat: "0 < n \<Longrightarrow> c_rem (int a) (int n) = Inr (int (a mod n))"
  by (cases "a = 0") (simp_all add: c_rem_def INT_MIN_def zmod_int)

lemma c_add_nat: "int a < INT_MAX \<Longrightarrow> c_add (int a) 1 = Inr (int (Suc a))"
  by (simp add: c_add_def INT_MIN_def)

lemma scan_from_end: "length procs \<le> j \<Longrightarrow> scan_from procs start j = - 1"
  by (simp add: scan_from_def)

lemma scan_from_step:
  "j < length procs \<Longrightarrow>
   scan_from procs start j =
     (if burst_left (procs ! ((start + j) mod length procs)) \<noteq> 0
      then int ((start + j) mod length procs) else scan_from procs start (Suc j))"
  by (simp add: scan_from_def upt_conv_Cons)

lemma wrap_iff:
  assumes "start < n" "j < n"
  shows "(start + Suc j) mod n = start \<longleftrightarrow> Suc j = n"
proof
  assume eq: "(start + Suc j) mod n = start"
  show "Suc j = n"
  proof (rule ccontr)
    assume "Suc j \<noteq> n"
    then have lt: "Suc j < n" using assms(2) by simp
    show False
    proof (cases "start + Suc j < n")
      case True
      then show False using eq by simp
    next
      case False
      then have "(start + Suc j) mod n = start + Suc j - n"
        using assms lt by (simp add: mod_if)
      then show False using eq False lt by simp
    qed
  qed
next
  assume "Suc j = n"
  then have "(start + Suc j) mod n = (start + n) mod n" by simp
  then show "(start + Suc j) mod n = start"
    using assms(1) by simp
qed

lemma rr_next_loop_eq:
  assumes "int (length procs) \<le> INT_MAX" "start < length procs" "j < length procs"
  shows "rr_next_loop procs (int (length procs)) (int start) (int ((start + j) mod length procs)) =
         Some (Inr (scan_from procs start j))"
  using assms(3)
proof (induction "length procs - j" arbitrary: j)
  case 0
  then show ?case by simp
next
  case (Suc d)
  let ?n = "length procs"
  let ?x = "(start + j) mod ?n"
  have n: "0 < ?n" using Suc.prems by (cases procs) simp_all
  have x: "?x < ?n" using n by simp
  have next_x: "(Suc ?x) mod ?n = (start + Suc j) mod ?n"
    by (metis add_Suc_right mod_Suc_eq)
  show ?case
  proof (cases "burst_left (procs ! ?x) = 0")
    case False
    then show ?thesis
      using x Suc.prems
      by (subst rr_next_loop.simps) (simp add: proc_at_nat scan_from_step)
  next
    case True
    have add: "c_add (int ?x) 1 = Inr (int (Suc ?x))"
      using x assms(1) by (intro c_add_nat) linarith
    have rem: "c_rem (int (Suc ?x)) (int ?n) = Inr (int ((start + Suc j) mod ?n))"
      using n by (simp add: c_rem_nat next_x del: of_nat_Suc)
    have unfold: "rr_next_loop procs (int ?n) (int start) (int ?x) =
          (if (start + Suc j) mod ?n = start then Some (Inr (- 1))
           else rr_next_loop procs (int ?n) (int start) (int ((start + Suc j) mod ?n)))"
      using x True add rem
      by (subst rr_next_loop.simps) (simp add: proc_at_nat del: of_nat_Suc)
    show ?thesis
    proof (cases "Suc j = ?n")
      case True
      then have "scan_from procs start j = - 1"
        using Suc.prems \<open>burst_left (procs ! ?x) = 0\<close>
        by (simp add: scan_from_step scan_from_end)
      then show ?thesis
        using unfold wrap_iff [OF assms(2) Suc.prems] True by simp
    next
      case False
      then have lt: "Suc j < ?n" using Suc.prems by simp
      have "rr_next_loop procs (int ?n) (int start) (int ((start + Suc j) mod ?n)) =
            Some (Inr (scan_from procs start (Suc j)))"
        using Suc.hyps(1) [of "Suc j"] Suc.hyps(2) lt by simp
      then show ?thesis
        using unfold wrap_iff [OF assms(2) Suc.prems] False True Suc.prems
        by (simp add: scan_from_step)
    qed
  qed
qed

lemma rr_next_eq:
  assumes "int (length procs) \<le> INT_MAX" "c < length procs"
  shows "rr_next (int c) procs (int (length procs)) =
         Some (Inr (scan_from procs (Suc c mod length procs) 0))"
proof -
  let ?n = "length procs"
  have n: "0 < ?n" using assms(2) by (cases procs) simp_all
  have add: "c_add (int c) 1 = Inr (int (Suc c))"
    using assms by (intro c_add_nat) linarith
  have rem: "c_rem (int (Suc c)) (int ?n) = Inr (int (Suc c mod ?n))"
    using n by (rule c_rem_nat)
  have "rr_next_loop procs (int ?n) (int (Suc c mod ?n)) (int ((Suc c mod ?n + 0) mod ?n)) =
        Some (Inr (scan_from procs (Suc c mod ?n) 0))"
    using assms(1) n by (intro rr_next_loop_eq) simp_all
  then show ?thesis
    using add rem by (simp add: rr_next_def del: of_nat_Suc)
qed

section \<open>Round robin: the result of the circular scan\<close>

lemma probes_image:
  assumes "start < (n::nat)"
  shows "(\<lambda>k. (start + k) mod n) ` {0..<n} = {0..<n}"
proof
  show "(\<lambda>k. (start + k) mod n) ` {0..<n} \<subseteq> {0..<n}"
    using assms by auto
next
  show "{0..<n} \<subseteq> (\<lambda>k. (start + k) mod n) ` {0..<n}"
  proof
    fix i
    assume "i \<in> {0..<n}"
    then have i: "i < n" by simp
    let ?k = "(i + n - start) mod n"
    have "(start + ?k) mod n = (start + (i + n - start)) mod n"
      by (rule mod_add_right_eq)
    also have "\<dots> = (i + n) mod n"
      using assms by simp
    also have "\<dots> = i"
      using i by simp
    finally have "i = (start + ?k) mod n" by simp
    moreover have "?k \<in> {0..<n}"
      using i by simp
    ultimately show "i \<in> (\<lambda>k. (start + k) mod n) ` {0..<n}"
      by (rule image_eqI)
  qed
qed

lemma scan_from_none_iff:
  assumes "start < length procs"
  shows "scan_from procs start 0 = - 1 \<longleftrightarrow> (\<forall>i<length procs. burst_left (procs ! i) = 0)"
proof -
  let ?n = "length procs"
  let ?probes = "map (\<lambda>k. (start + k) mod ?n) [0..<?n]"
  have set: "set ?probes = {0..<?n}"
    using probes_image [OF assms] by simp
  have "scan_from procs start 0 = - 1 \<longleftrightarrow> find (\<lambda>i. burst_left (procs ! i) \<noteq> 0) ?probes = None"
    by (simp add: scan_from_def split: option.split)
  also have "\<dots> \<longleftrightarrow> (\<forall>i\<in>set ?probes. burst_left (procs ! i) = 0)"
    by (simp only: find_None_iff) blast
  also have "\<dots> \<longleftrightarrow> (\<forall>i<?n. burst_left (procs ! i) = 0)"
    unfolding set by auto
  finally show ?thesis .
qed

lemma scan_from_some:
  assumes "start < length procs" "scan_from procs start 0 \<noteq> - 1"
  shows "\<exists>i<length procs. scan_from procs start 0 = int i \<and> burst_left (procs ! i) \<noteq> 0"
proof -
  let ?n = "length procs"
  let ?probes = "map (\<lambda>k. (start + k) mod ?n) [0..<?n]"
  obtain i where i: "find (\<lambda>i. burst_left (procs ! i) \<noteq> 0) ?probes = Some i"
    using assms(2) by (auto simp add: scan_from_def split: option.splits)
  then have "burst_left (procs ! i) \<noteq> 0" "i \<in> set ?probes"
    unfolding find_Some_iff by (blast, metis nth_mem)
  moreover have "set ?probes = {0..<?n}"
    using probes_image [OF assms(1)] by simp
  ultimately show ?thesis
    using i by (auto simp add: scan_from_def)
qed

lemma scan_from_first_aux:
  assumes "c' < length procs" "burst_left (procs ! c') \<noteq> 0"
      and "start + j \<le> c'" "\<forall>k. start + j \<le> k \<and> k < c' \<longrightarrow> burst_left (procs ! k) = 0"
  shows "scan_from procs start j = int c'"
  using assms(3,4)
proof (induction "c' - (start + j)" arbitrary: j)
  case 0
  then have "start + j = c'" by simp
  then show ?case
    using assms(1,2) scan_from_step [of j procs start] by simp
next
  case (Suc d)
  then have lt: "start + j < c'" by simp
  then have zero: "burst_left (procs ! (start + j)) = 0"
    using Suc.prems(2) by simp
  have "scan_from procs start j = scan_from procs start (Suc j)"
    using lt assms(1) zero scan_from_step [of j procs start] by simp
  also have "\<dots> = int c'"
    using Suc.hyps(1) [of "Suc j"] Suc.hyps(2) lt Suc.prems(2) by simp
  finally show ?case .
qed

lemma scan_from_first:
  assumes "c < c'" "c' < length procs" "burst_left (procs ! c') \<noteq> 0"
      and "\<forall>k. c < k \<and> k < c' \<longrightarrow> burst_left (procs ! k) = 0"
  shows "scan_from procs (Suc c mod length procs) 0 = int c'"
proof -
  have "Suc c mod length procs = Suc c"
    using assms(1,2) by simp
  then show ?thesis
    using assms scan_from_first_aux [of c' procs "Suc c" 0] by simp
qed

section \<open>Round robin: the work that is left\<close>

lemma sum_list_update_int:
  fixes xs :: "int list"
  shows "k < length xs \<Longrightarrow> sum_list (xs[k := x]) = sum_list xs + x - xs ! k"
proof (induction xs arbitrary: k)
  case Nil
  then show ?case by simp
next
  case (Cons y ys)
  then show ?case by (cases k) simp_all
qed

lemma work_left_advance:
  assumes "c < length procs"
  shows "work_left (advance procs c amount) = work_left procs - amount"
proof -
  have "map burst_left (advance procs c amount) =
        (map burst_left procs)[c := burst_left (procs ! c) - amount]"
    using assms by (intro nth_equalityI) (auto simp add: advance_nth nth_list_update)
  then show ?thesis
    using assms by (simp add: work_left_def sum_list_update_int)
qed

lemma work_left_nonneg: "\<forall>p\<in>set procs. 0 \<le> burst_left p \<Longrightarrow> 0 \<le> work_left procs"
  unfolding work_left_def by (rule sum_list_nonneg) auto

lemma burst_le_work_left:
  assumes "\<forall>p\<in>set procs. 0 \<le> burst_left p" "c < length procs"
  shows "burst_left (procs ! c) \<le> work_left procs"
proof -
  let ?rest = "(map burst_left procs)[c := 0]"
  have "\<And>b. b \<in> set ?rest \<Longrightarrow> 0 \<le> b"
  proof -
    fix b
    assume "b \<in> set ?rest"
    then obtain i where "i < length procs" "b = ?rest ! i"
      by (auto simp add: in_set_conv_nth)
    then show "0 \<le> b"
      using assms(1) by (cases "i = c") (simp_all add: nth_list_update)
  qed
  then have "0 \<le> sum_list ?rest"
    by (rule sum_list_nonneg)
  then show ?thesis
    using assms(2) by (simp add: work_left_def sum_list_update_int)
qed

lemma work_left_zero_iff:
  assumes "\<forall>p\<in>set procs. 0 \<le> burst_left p"
  shows "work_left procs = 0 \<longleftrightarrow> (\<forall>i<length procs. burst_left (procs ! i) = 0)"
proof
  assume zero: "work_left procs = 0"
  show "\<forall>i<length procs. burst_left (procs ! i) = 0"
  proof (intro allI impI)
    fix i
    assume i: "i < length procs"
    then have "burst_left (procs ! i) \<le> 0"
      using burst_le_work_left [OF assms i] zero by simp
    moreover have "0 \<le> burst_left (procs ! i)"
      using assms i by simp
    ultimately show "burst_left (procs ! i) = 0" by simp
  qed
next
  assume "\<forall>i<length procs. burst_left (procs ! i) = 0"
  then have "map burst_left procs = replicate (length procs) 0"
    by (intro nth_equalityI) simp_all
  then show "work_left procs = 0"
    by (simp add: work_left_def sum_list_replicate)
qed

section \<open>Round robin: a run from a live process\<close>

lemma rr_turn_live:
  assumes "c < length procs" "0 < burst_left (procs ! c)"
      and "amount = (if burst_left (procs ! c) < quantum then burst_left (procs ! c) else quantum)"
      and "advance_ok procs c amount" "in_int (t + amount)"
  shows "rr_turn procs (int (length procs)) quantum (int c) t turns =
         Inr (advance procs c amount, t + amount, Suc turns)"
  using assms by (simp add: rr_turn_def proc_at_nat run_proc_eq c_add_eq Let_def)

lemma rr_turn_done:
  assumes "c < length procs" "\<not> 0 < burst_left (procs ! c)"
  shows "rr_turn procs (int (length procs)) quantum (int c) t turns = Inr (procs, t, turns)"
  using assms by (simp add: rr_turn_def proc_at_nat)

lemma rr_loop_live:
  assumes "int (length procs) \<le> INT_MAX" "c < length procs" "0 < burst_left (procs ! c)"
      and "0 < quantum"
      and "\<forall>p\<in>set procs. 0 \<le> burst_left p"
      and "\<forall>p\<in>set procs. 0 \<le> wait p \<and> wait p \<le> t"
      and "0 \<le> t" "t + work_left procs \<le> INT_MAX"
  shows "\<exists>final turns'.
           rr_loop procs (int (length procs)) quantum (int c) t turns =
             Some (Inr (t + work_left procs, final, turns')) \<and>
           turns' \<le> turns + nat (work_left procs) \<and>
           length final = length procs \<and> (\<forall>p\<in>set final. burst_left p = 0)"
  using assms
proof (induction "nat (work_left procs)" arbitrary: procs c t turns rule: less_induct)
  case less
  let ?n = "length procs"
  let ?b = "burst_left (procs ! c)"
  define amount where "amount = (if ?b < quantum then ?b else quantum)"
  define procs' where "procs' = advance procs c amount"
  have amount: "1 \<le> amount" "amount \<le> ?b"
    using less.prems(3,4) by (simp_all add: amount_def)
  have b_le: "?b \<le> work_left procs"
    using less.prems(5,2) by (rule burst_le_work_left)
  have wait_c: "\<And>k. k < ?n \<Longrightarrow> 0 \<le> wait (procs ! k) \<and> wait (procs ! k) \<le> t"
    using less.prems(6) by simp
  have burst_c: "\<And>k. k < ?n \<Longrightarrow> 0 \<le> burst_left (procs ! k)"
    using less.prems(5) by simp
  have ok: "advance_ok procs c amount"
    unfolding advance_ok_def in_int_def INT_MIN_def
  proof (intro conjI allI impI)
    show "- 2147483648 \<le> ?b - amount" using amount by simp
    show "?b - amount \<le> INT_MAX" using amount b_le less.prems(7,8) by simp
  next
    fix k
    assume k: "k < ?n" "k \<noteq> c \<and> 0 < burst_left (procs ! k)"
    show "- 2147483648 \<le> wait (procs ! k) + amount"
      using wait_c [OF k(1)] amount by simp
    show "wait (procs ! k) + amount \<le> INT_MAX"
      using wait_c [OF k(1)] amount b_le less.prems(8) by simp
  qed
  have t_in: "in_int (t + amount)"
    using amount b_le less.prems(7,8) by (simp add: in_int_def INT_MIN_def)
  have turn: "rr_turn procs (int ?n) quantum (int c) t turns = Inr (procs', t + amount, Suc turns)"
    unfolding procs'_def
    using less.prems(2,3) amount_def ok t_in by (rule rr_turn_live)
  have len': "length procs' = ?n"
    by (simp add: procs'_def)
  have work': "work_left procs' = work_left procs - amount"
    unfolding procs'_def using less.prems(2) by (rule work_left_advance)
  have nth': "\<And>k. k < ?n \<Longrightarrow> 0 \<le> burst_left (procs' ! k) \<and>
                 0 \<le> wait (procs' ! k) \<and> wait (procs' ! k) \<le> t + amount"
  proof -
    fix k
    assume k: "k < ?n"
    show "0 \<le> burst_left (procs' ! k) \<and> 0 \<le> wait (procs' ! k) \<and> wait (procs' ! k) \<le> t + amount"
      using burst_c [OF k] wait_c [OF k] amount k by (auto simp add: procs'_def advance_nth)
  qed
  have nonneg': "\<forall>p\<in>set procs'. 0 \<le> burst_left p"
    using nth' len' by (auto simp add: in_set_conv_nth)
  have waits': "\<forall>p\<in>set procs'. 0 \<le> wait p \<and> wait p \<le> t + amount"
    using nth' len' by (auto simp add: in_set_conv_nth)
  have work'_nonneg: "0 \<le> work_left procs'"
    using nonneg' by (rule work_left_nonneg)
  let ?r = "scan_from procs' (Suc c mod ?n) 0"
  have n_pos: "0 < ?n"
    using less.prems(2) by (cases procs) simp_all
  have start: "Suc c mod ?n < length procs'"
    using n_pos len' by simp
  have "rr_next (int c) procs' (int (length procs')) = Some (Inr ?r)"
    using less.prems(1,2) len' rr_next_eq [of procs' c] by simp
  then have nxt: "rr_next (int c) procs' (int ?n) = Some (Inr ?r)"
    using len' by simp
  have unfold: "rr_loop procs (int ?n) quantum (int c) t turns =
        (if ?r = - 1 then Some (Inr (t + amount, procs', Suc turns))
         else rr_loop procs' (int ?n) quantum ?r (t + amount) (Suc turns))"
    using turn nxt by (subst rr_loop.simps) simp
  show ?case
  proof (cases "?r = - 1")
    case True
    then have zero: "\<forall>i<length procs'. burst_left (procs' ! i) = 0"
      using scan_from_none_iff [OF start] by simp
    then have "work_left procs' = 0"
      using work_left_zero_iff [OF nonneg'] by simp
    then have "amount = work_left procs"
      using work' by simp
    moreover have "\<forall>p\<in>set procs'. burst_left p = 0"
      using zero by (auto simp add: in_set_conv_nth)
    ultimately show ?thesis
      using unfold True len' amount by auto
  next
    case False
    then obtain i where i: "i < length procs'" "?r = int i" "burst_left (procs' ! i) \<noteq> 0"
      using scan_from_some [OF start] by blast
    then have live: "0 < burst_left (procs' ! i)"
      using nth' [of i] len' by simp
    have smaller: "nat (work_left procs') < nat (work_left procs)"
      using work' work'_nonneg amount by simp
    have "\<exists>final turns'.
            rr_loop procs' (int (length procs')) quantum (int i) (t + amount) (Suc turns) =
              Some (Inr (t + amount + work_left procs', final, turns')) \<and>
            turns' \<le> Suc turns + nat (work_left procs') \<and>
            length final = length procs' \<and> (\<forall>p\<in>set final. burst_left p = 0)"
      using smaller
    proof (rule less.hyps)
      show "int (length procs') \<le> INT_MAX" using less.prems(1) len' by simp
      show "i < length procs'" by (rule i(1))
      show "0 < burst_left (procs' ! i)" by (rule live)
      show "0 < quantum" by (rule less.prems(4))
      show "\<forall>p\<in>set procs'. 0 \<le> burst_left p" by (rule nonneg')
      show "\<forall>p\<in>set procs'. 0 \<le> wait p \<and> wait p \<le> t + amount" by (rule waits')
      show "0 \<le> t + amount" using less.prems(7) amount by simp
      show "t + amount + work_left procs' \<le> INT_MAX" using work' less.prems(8) by simp
    qed
    then obtain final turns' where run:
      "rr_loop procs' (int ?n) quantum (int i) (t + amount) (Suc turns) =
         Some (Inr (t + amount + work_left procs', final, turns'))"
      "turns' \<le> Suc turns + nat (work_left procs')"
      "length final = ?n" "\<forall>p\<in>set final. burst_left p = 0"
      using len' by auto
    have "turns' \<le> turns + nat (work_left procs)"
      using run(2) smaller by linarith
    moreover have "t + amount + work_left procs' = t + work_left procs"
      using work' by simp
    ultimately show ?thesis
      using unfold False i(2) run by auto
  qed
qed

section \<open>Complete processes are left alone\<close>

lemma rr_loop_start:
  assumes "int (length procs) \<le> INT_MAX" "procs \<noteq> []" "0 < quantum"
      and "\<forall>p\<in>set procs. 0 \<le> burst_left p" "\<forall>p\<in>set procs. wait p = 0"
      and "work_left procs \<le> INT_MAX"
  shows "\<exists>final turns'.
           rr_loop procs (int (length procs)) quantum 0 0 0 =
             Some (Inr (work_left procs, final, turns')) \<and>
           turns' \<le> nat (work_left procs) \<and>
           length final = length procs \<and> (\<forall>p\<in>set final. burst_left p = 0)"
proof -
  let ?n = "length procs"
  have n_pos: "0 < ?n" using assms(2) by simp
  have waits: "\<forall>p\<in>set procs. 0 \<le> wait p \<and> wait p \<le> 0"
    using assms(5) by simp
  have live: "\<exists>final turns'.
           rr_loop procs (int ?n) quantum (int c) 0 0 =
             Some (Inr (0 + work_left procs, final, turns')) \<and>
           turns' \<le> 0 + nat (work_left procs) \<and>
           length final = ?n \<and> (\<forall>p\<in>set final. burst_left p = 0)"
    if "c < ?n" "0 < burst_left (procs ! c)" for c
    using assms(1) that assms(3,4) waits
    by (rule rr_loop_live) (simp_all add: assms(6))
  show ?thesis
  proof (cases "0 < burst_left (procs ! 0)")
    case True
    then show ?thesis
      using live [of 0] n_pos by simp
  next
    case False
    let ?r = "scan_from procs (Suc 0 mod ?n) 0"
    have start: "Suc 0 mod ?n < ?n" using n_pos by (rule mod_less_divisor)
    have turn: "rr_turn procs (int ?n) quantum (int 0) 0 0 = Inr (procs, 0, 0)"
      using n_pos False by (rule rr_turn_done)
    have nxt: "rr_next (int 0) procs (int ?n) = Some (Inr ?r)"
      using assms(1) n_pos by (rule rr_next_eq)
    have unfold: "rr_loop procs (int ?n) quantum 0 0 0 =
          (if ?r = - 1 then Some (Inr (0, procs, 0))
           else rr_loop procs (int ?n) quantum ?r 0 0)"
      using turn nxt by (subst rr_loop.simps) simp
    show ?thesis
    proof (cases "?r = - 1")
      case True
      then have zero: "\<forall>i<?n. burst_left (procs ! i) = 0"
        using scan_from_none_iff [OF start] by simp
      then have "work_left procs = 0"
        using work_left_zero_iff [OF assms(4)] by simp
      moreover have "\<forall>p\<in>set procs. burst_left p = 0"
        using zero by (auto simp add: in_set_conv_nth)
      ultimately show ?thesis
        using unfold True by simp
    next
      case False
      then obtain i where i: "i < ?n" "?r = int i" "burst_left (procs ! i) \<noteq> 0"
        using scan_from_some [OF start] by blast
      then have "0 < burst_left (procs ! i)"
        using assms(4) by (simp add: order.strict_iff_order)
      then show ?thesis
        using live [OF i(1)] unfold False i(2) by simp
    qed
  qed
qed

lemma advance_keeps_done:
  assumes "k < length procs" "burst_left (procs ! k) = 0" "k \<noteq> c \<or> amount = 0"
  shows "advance procs c amount ! k = procs ! k"
  using assms by (auto simp add: advance_nth)

lemma run_proc_keeps_done:
  assumes "run_proc procs (int (length procs)) (int c) amount = Inr procs'" "c < length procs"
      and "k < length procs" "burst_left (procs ! k) = 0" "k \<noteq> c \<or> amount = 0"
  shows "procs' ! k = procs ! k"
proof -
  have "procs' = advance procs c amount"
    using assms(1) run_proc_eq [OF assms(2), of amount] by (simp split: if_splits)
  then show ?thesis
    using assms(3-5) by (simp add: advance_keeps_done)
qed

lemma fcfs_loop_keeps_done:
  assumes "fcfs_loop procs (int (length procs)) (int i) t = Inr (t', procs')"
  shows "length procs' = length procs \<and>
         (\<forall>k<length procs. burst_left (procs ! k) = 0 \<longrightarrow> procs' ! k = procs ! k)"
  using assms
proof (induction "length procs - i" arbitrary: procs i t)
  case 0
  then show ?case
    using fcfs_loop.simps [of procs "int (length procs)" "int i" t] by simp
next
  case (Suc d)
  then have i: "i < length procs" by simp
  let ?b = "burst_left (procs ! i)"
  let ?procs = "advance procs i ?b"
  have next_i: "int i + 1 = int (Suc i)" by simp
  have run: "run_proc procs (int (length procs)) (int i) ?b =
        (if advance_ok procs i ?b then Inr ?procs else Inl Overflow)"
    using i by (rule run_proc_eq)
  have "fcfs_loop ?procs (int (length ?procs)) (int (Suc i)) (t + ?b) = Inr (t', procs')"
    using Suc.prems i run fcfs_loop.simps [of procs "int (length procs)" "int i" t]
    by (simp add: proc_at_nat c_add_eq next_i del: of_nat_Suc split: if_splits)
  then have IH: "length procs' = length ?procs \<and>
         (\<forall>k<length ?procs. burst_left (?procs ! k) = 0 \<longrightarrow> procs' ! k = ?procs ! k)"
    using Suc.hyps(1) [of ?procs "Suc i" "t + ?b"] Suc.hyps(2) by simp
  have "procs' ! k = procs ! k" if "k < length procs" "burst_left (procs ! k) = 0" for k
  proof -
    have same: "?procs ! k = procs ! k"
      using that by (intro advance_keeps_done) auto
    then show ?thesis
      using IH that by simp
  qed
  then show ?case
    using IH by simp
qed

lemma rr_turn_keeps_done:
  assumes "rr_turn procs (int (length procs)) quantum current t turns = Inr (procs', t', turns')"
  shows "length procs' = length procs \<and>
         (\<forall>k<length procs. burst_left (procs ! k) = 0 \<longrightarrow> procs' ! k = procs ! k)"
proof (cases "0 \<le> current \<and> current < int (length procs)")
  case False
  then show ?thesis
    using assms by (auto simp add: rr_turn_def proc_at_def split: if_splits)
next
  case True
  define c where "c = nat current"
  have c: "current = int c" "c < length procs"
    using True unfolding c_def by linarith+
  show ?thesis
  proof (cases "0 < burst_left (procs ! c)")
    case False
    then show ?thesis
      using assms c rr_turn_done [of c procs quantum t turns] by simp
  next
    case True
    define amount where "amount = (if burst_left (procs ! c) < quantum then burst_left (procs ! c) else quantum)"
    have "procs' = advance procs c amount"
      using assms c True run_proc_eq [OF c(2), of amount]
      by (simp add: rr_turn_def proc_at_nat Let_def amount_def split: if_splits sum.splits)
    then show ?thesis
      using True by (auto simp add: advance_nth)
  qed
qed

lemma rr_loop_keeps_done:
  assumes "rr_loop procs plen quantum current t turns = Some y"
  shows "plen = int (length procs) \<longrightarrow>
         (\<forall>t' procs' turns'. y = Inr (t', procs', turns') \<longrightarrow>
            length procs' = length procs \<and>
            (\<forall>k<length procs. burst_left (procs ! k) = 0 \<longrightarrow> procs' ! k = procs ! k))"
  using assms
proof (induction rule: rr_loop.raw_induct [rotated 1, consumes 1])
  case (1 rr_loop procs plen quantum current t turns y)
  note IH = "1"(1) and body = "1"(2)
  show ?case
  proof (intro impI allI)
    fix t' procs' turns'
    assume plen: "plen = int (length procs)" and y: "y = Inr (t', procs', turns')"
    have body': "(case rr_turn procs (int (length procs)) quantum current t turns of
          Inl e \<Rightarrow> Some (Inl e)
        | Inr (procs1, t1, turns1) \<Rightarrow>
            (case rr_next current procs1 (int (length procs)) of
               None \<Rightarrow> None
             | Some (Inl e) \<Rightarrow> Some (Inl e)
             | Some (Inr nxt) \<Rightarrow>
                 if nxt = - 1 then Some (Inr (t1, procs1, turns1))
                 else rr_loop procs1 (int (length procs)) quantum nxt t1 turns1)) =
        Some (Inr (t', procs', turns'))"
      using body unfolding plen y .
    obtain procs1 t1 turns1 where turn:
      "rr_turn procs (int (length procs)) quantum current t turns = Inr (procs1, t1, turns1)"
    proof (cases "rr_turn procs (int (length procs)) quantum current t turns")
      case (Inl e)
      then show ?thesis using body' by simp
    next
      case (Inr r)
      then show ?thesis using that by (cases r) auto
    qed
    have keep1: "length procs1 = length procs"
      "\<And>k. k < length procs \<Longrightarrow> burst_left (procs ! k) = 0 \<Longrightarrow> procs1 ! k = procs ! k"
      using rr_turn_keeps_done [OF turn] by simp_all
    have body'': "(case rr_next current procs1 (int (length procs)) of
               None \<Rightarrow> None
             | Some (Inl e) \<Rightarrow> Some (Inl e)
             | Some (Inr nxt) \<Rightarrow>
                 if nxt = - 1 then Some (Inr (t1, procs1, turns1))
                 else rr_loop procs1 (int (length procs)) quantum nxt t1 turns1) =
        Some (Inr (t', procs', turns'))"
      using body' turn by simp
    obtain nxt where nxt: "rr_next current procs1 (int (length procs)) = Some (Inr nxt)"
    proof (cases "rr_next current procs1 (int (length procs))")
      case None
      then show ?thesis using body'' by simp
    next
      case (Some r)
      then show ?thesis using that body'' by (cases r) simp_all
    qed
    have rest: "(if nxt = - 1 then Some (Inr (t1, procs1, turns1))
                 else rr_loop procs1 (int (length procs)) quantum nxt t1 turns1) =
        Some (Inr (t', procs', turns'))"
      using body'' nxt by simp
    show "length procs' = length procs \<and>
          (\<forall>k<length procs. burst_left (procs ! k) = 0 \<longrightarrow> procs' ! k = procs ! k)"
    proof (cases "nxt = - 1")
      case True
      then have "procs' = procs1"
        using rest by simp
      then show ?thesis
        using keep1 by simp
    next
      case False
      then have "rr_loop procs1 (int (length procs1)) quantum nxt t1 turns1 = Some (Inr (t', procs', turns'))"
        using rest keep1(1) by simp
      then have "length procs' = length procs1 \<and>
          (\<forall>k<length procs1. burst_left (procs1 ! k) = 0 \<longrightarrow> procs' ! k = procs1 ! k)"
        using IH [of procs1 "int (length procs1)" quantum nxt t1 turns1 "Inr (t', procs', turns')"]
        by simp
      then show ?thesis
        using keep1 by simp
    qed
  qed
qed

section \<open>A quantum no shorter than any burst: single steps\<close>

lemma advance_zero: "advance procs c 0 = procs"
  by (rule nth_equalityI) (simp_all add: advance_nth)

lemma fcfs_state_skip:
  "i < length bursts \<Longrightarrow> bursts ! i = 0 \<Longrightarrow> fcfs_state bursts (Suc i) = fcfs_state bursts i"
  using advance_fcfs_state [of i bursts] by (simp add: advance_zero)

lemma zero_run:
  assumes "i \<le> j" "j \<le> length bursts" "\<forall>k. i \<le> k \<and> k < j \<longrightarrow> bursts ! k = 0"
  shows "fcfs_state bursts j = fcfs_state bursts i \<and> prefix_sum bursts j = prefix_sum bursts i"
  using assms
proof (induction rule: dec_induct)
  case base
  show ?case by simp
next
  case (step m)
  then have "bursts ! m = 0" "m < length bursts"
    by simp_all
  then show ?case
    using step by (simp add: fcfs_state_skip prefix_sum_Suc)
qed

lemma fcfs_loop_step_eq:
  assumes "i < length bursts"
  shows "fcfs_loop (fcfs_state bursts i) (int (length bursts)) (int i) (prefix_sum bursts i) =
         (if advance_ok (fcfs_state bursts i) i (bursts ! i) \<and> in_int (prefix_sum bursts (Suc i))
          then fcfs_loop (fcfs_state bursts (Suc i)) (int (length bursts)) (int (Suc i))
                 (prefix_sum bursts (Suc i))
          else Inl Overflow)"
proof -
  have next_i: "int i + 1 = int (Suc i)" by simp
  have run: "run_proc (fcfs_state bursts i) (int (length bursts)) (int i) (bursts ! i) =
        (if advance_ok (fcfs_state bursts i) i (bursts ! i)
         then Inr (fcfs_state bursts (Suc i)) else Inl Overflow)"
    using run_proc_eq [of i "fcfs_state bursts i" "bursts ! i"] assms
    by (simp add: advance_fcfs_state)
  show ?thesis
    using assms run
      fcfs_loop.simps [of "fcfs_state bursts i" "int (length bursts)" "int i" "prefix_sum bursts i"]
    by (simp add: proc_at_nat fcfs_state_nth c_add_eq prefix_sum_Suc next_i del: of_nat_Suc)
qed

lemma fcfs_loop_skip:
  assumes "i \<le> j" "j \<le> length bursts" "\<forall>k. i \<le> k \<and> k < j \<longrightarrow> bursts ! k = 0"
      and "in_int (prefix_sum bursts i)"
  shows "fcfs_loop (fcfs_state bursts i) (int (length bursts)) (int i) (prefix_sum bursts i) =
         fcfs_loop (fcfs_state bursts j) (int (length bursts)) (int j) (prefix_sum bursts j)"
  using assms(1-3)
proof (induction rule: dec_induct)
  case base
  show ?case by simp
next
  case (step m)
  then have m: "m < length bursts" "bursts ! m = 0"
    by simp_all
  have "prefix_sum bursts m = prefix_sum bursts i"
    using zero_run [of i m bursts] step by simp
  then have "in_int (prefix_sum bursts (Suc m))"
    using assms(4) m by (simp add: prefix_sum_Suc)
  then have "fcfs_loop (fcfs_state bursts m) (int (length bursts)) (int m) (prefix_sum bursts m) =
        fcfs_loop (fcfs_state bursts (Suc m)) (int (length bursts)) (int (Suc m))
          (prefix_sum bursts (Suc m))"
    using m(1) by (intro fcfs_loop_step)
  then show ?case
    using step by simp
qed

lemma rr_turn_live_eq:
  assumes "c < length procs" "0 < burst_left (procs ! c)"
      and "amount = (if burst_left (procs ! c) < quantum then burst_left (procs ! c) else quantum)"
  shows "rr_turn procs (int (length procs)) quantum (int c) t turns =
         (if advance_ok procs c amount \<and> in_int (t + amount)
          then Inr (advance procs c amount, t + amount, Suc turns) else Inl Overflow)"
  using assms by (simp add: rr_turn_def proc_at_nat run_proc_eq c_add_eq Let_def)

lemma rr_turn_full:
  assumes "c < length bursts" "0 < bursts ! c" "bursts ! c \<le> quantum"
  shows "rr_turn (fcfs_state bursts c) (int (length bursts)) quantum (int c) (prefix_sum bursts c) turns =
         (if advance_ok (fcfs_state bursts c) c (bursts ! c) \<and> in_int (prefix_sum bursts (Suc c))
          then Inr (fcfs_state bursts (Suc c), prefix_sum bursts (Suc c), Suc turns)
          else Inl Overflow)"
proof -
  let ?procs = "fcfs_state bursts c"
  have c: "c < length ?procs" "0 < burst_left (?procs ! c)"
    using assms(1,2) by (simp_all add: fcfs_state_nth)
  have amount: "bursts ! c = (if burst_left (?procs ! c) < quantum then burst_left (?procs ! c) else quantum)"
    using assms by (simp add: fcfs_state_nth)
  have "rr_turn ?procs (int (length ?procs)) quantum (int c) (prefix_sum bursts c) turns =
         (if advance_ok ?procs c (bursts ! c) \<and> in_int (prefix_sum bursts c + bursts ! c)
          then Inr (advance ?procs c (bursts ! c), prefix_sum bursts c + bursts ! c, Suc turns)
          else Inl Overflow)"
    using c amount by (rule rr_turn_live_eq)
  then show ?thesis
    using assms(1) by (simp add: advance_fcfs_state prefix_sum_Suc)
qed

section \<open>Round robin: a run always ends\<close>

lemma rr_loop_ends_live:
  assumes "int (length procs) \<le> INT_MAX" "c < length procs" "0 < burst_left (procs ! c)"
      and "0 < quantum"
      and "\<forall>p\<in>set procs. 0 \<le> burst_left p"
  shows "\<exists>r. rr_loop procs (int (length procs)) quantum (int c) t turns = Some r \<and>
           (r = Inl Overflow \<or>
            (\<exists>t' final turns'. r = Inr (t', final, turns') \<and>
               turns' \<le> turns + nat (work_left procs) \<and>
               length final = length procs \<and> (\<forall>p\<in>set final. burst_left p = 0)))"
  using assms
proof (induction "nat (work_left procs)" arbitrary: procs c t turns rule: less_induct)
  case less
  let ?n = "length procs"
  let ?b = "burst_left (procs ! c)"
  define amount where "amount = (if ?b < quantum then ?b else quantum)"
  define procs' where "procs' = advance procs c amount"
  define ok where "ok \<longleftrightarrow> advance_ok procs c amount \<and> in_int (t + amount)"
  have amount: "1 \<le> amount" "amount \<le> ?b"
    using less.prems(3,4) by (simp_all add: amount_def)
  have b_le: "?b \<le> work_left procs"
    using less.prems(5,2) by (rule burst_le_work_left)
  have turn: "rr_turn procs (int ?n) quantum (int c) t turns =
        (if ok then Inr (procs', t + amount, Suc turns) else Inl Overflow)"
    unfolding ok_def procs'_def
    using less.prems(2,3) amount_def by (rule rr_turn_live_eq)
  show ?case
  proof (cases ok)
    case False
    then have "rr_loop procs (int ?n) quantum (int c) t turns = Some (Inl Overflow)"
      using turn by (subst rr_loop.simps) simp
    then show ?thesis by simp
  next
    case True
    have burst_c: "\<And>k. k < ?n \<Longrightarrow> 0 \<le> burst_left (procs ! k)"
      using less.prems(5) by simp
    have len': "length procs' = ?n"
      by (simp add: procs'_def)
    have work': "work_left procs' = work_left procs - amount"
      unfolding procs'_def using less.prems(2) by (rule work_left_advance)
    have nth': "\<And>k. k < ?n \<Longrightarrow> 0 \<le> burst_left (procs' ! k)"
    proof -
      fix k
      assume k: "k < ?n"
      show "0 \<le> burst_left (procs' ! k)"
        using burst_c [OF k] amount k by (auto simp add: procs'_def advance_nth)
    qed
    have nonneg': "\<forall>p\<in>set procs'. 0 \<le> burst_left p"
      using nth' len' by (auto simp add: in_set_conv_nth)
    have work'_nonneg: "0 \<le> work_left procs'"
      using nonneg' by (rule work_left_nonneg)
    let ?r = "scan_from procs' (Suc c mod ?n) 0"
    have n_pos: "0 < ?n"
      using less.prems(2) by (cases procs) simp_all
    have start: "Suc c mod ?n < length procs'"
      using n_pos len' by simp
    have "rr_next (int c) procs' (int (length procs')) = Some (Inr ?r)"
      using less.prems(1,2) len' rr_next_eq [of procs' c] by simp
    then have nxt: "rr_next (int c) procs' (int ?n) = Some (Inr ?r)"
      using len' by simp
    have unfold: "rr_loop procs (int ?n) quantum (int c) t turns =
          (if ?r = - 1 then Some (Inr (t + amount, procs', Suc turns))
           else rr_loop procs' (int ?n) quantum ?r (t + amount) (Suc turns))"
      using turn True nxt by (subst rr_loop.simps) simp
    show ?thesis
    proof (cases "?r = - 1")
      case True
      then have zero: "\<forall>i<length procs'. burst_left (procs' ! i) = 0"
        using scan_from_none_iff [OF start] by simp
      then have "\<forall>p\<in>set procs'. burst_left p = 0"
        by (auto simp add: in_set_conv_nth)
      moreover have "Suc turns \<le> turns + nat (work_left procs)"
        using amount b_le by linarith
      ultimately show ?thesis
        using unfold True len' by simp
    next
      case False
      then obtain i where i: "i < length procs'" "?r = int i" "burst_left (procs' ! i) \<noteq> 0"
        using scan_from_some [OF start] by blast
      then have live: "0 < burst_left (procs' ! i)"
        using nth' [of i] len' by simp
      have smaller: "nat (work_left procs') < nat (work_left procs)"
        using work' work'_nonneg amount by simp
      have "\<exists>r. rr_loop procs' (int (length procs')) quantum (int i) (t + amount) (Suc turns) = Some r \<and>
           (r = Inl Overflow \<or>
            (\<exists>t' final turns'. r = Inr (t', final, turns') \<and>
               turns' \<le> Suc turns + nat (work_left procs') \<and>
               length final = length procs' \<and> (\<forall>p\<in>set final. burst_left p = 0)))"
        using smaller
      proof (rule less.hyps)
        show "int (length procs') \<le> INT_MAX" using less.prems(1) len' by simp
        show "i < length procs'" by (rule i(1))
        show "0 < burst_left (procs' ! i)" by (rule live)
        show "0 < quantum" by (rule less.prems(4))
        show "\<forall>p\<in>set procs'. 0 \<le> burst_left p" by (rule nonneg')
      qed
      then obtain r where run:
        "rr_loop procs' (int ?n) quantum (int i) (t + amount) (Suc turns) = Some r"
        "r = Inl Overflow \<or>
            (\<exists>t' final turns'. r = Inr (t', final, turns') \<and>
               turns' \<le> Suc turns + nat (work_left procs') \<and>
               length final = ?n \<and> (\<forall>p\<in>set final. burst_left p = 0))"
        using len' by auto
      have bound: "\<And>m. m \<le> Suc turns + nat (work_left procs') \<Longrightarrow> m \<le> turns + nat (work_left procs)"
        using smaller by linarith
      have "rr_loop procs (int ?n) quantum (int c) t turns = Some r"
        using unfold False i(2) run(1) by simp
      moreover have "r = Inl Overflow \<or>
            (\<exists>t' final turns'. r = Inr (t', final, turns') \<and>
               turns' \<le> turns + nat (work_left procs) \<and>
               length final = ?n \<and> (\<forall>p\<in>set final. burst_left p = 0))"
        using run(2) bound by blast
      ultimately show ?thesis by blast
    qed
  qed
qed

lemma rr_loop_ends_start:
  assumes "int (length procs) \<le> INT_MAX" "procs \<noteq> []" "0 < quantum"
      and "\<forall>p\<in>set procs. 0 \<le> burst_left p"
  shows "\<exists>r. rr_loop procs (int (length procs)) quantum 0 0 0 = Some r \<and>
           (r = Inl Overflow \<or>
            (\<exists>t' final turns'. r = Inr (t', final, turns') \<and>
               turns' \<le> nat (work_left procs) \<and>
               length final = length procs \<and> (\<forall>p\<in>set final. burst_left p = 0)))"
proof -
  let ?n = "length procs"
  have n_pos: "0 < ?n" using assms(2) by simp
  have live: "\<exists>r. rr_loop procs (int ?n) quantum (int c) 0 0 = Some r \<and>
           (r = Inl Overflow \<or>
            (\<exists>t' final turns'. r = Inr (t', final, turns') \<and>
               turns' \<le> 0 + nat (work_left procs) \<and>
               length final = ?n \<and> (\<forall>p\<in>set final. burst_left p = 0)))"
    if c: "c < ?n" "0 < burst_left (procs ! c)" for c
    using assms(1) c assms(3,4) by (rule rr_loop_ends_live)
  show ?thesis
  proof (cases "0 < burst_left (procs ! 0)")
    case True
    then show ?thesis
      using live [of 0] n_pos by simp
  next
    case False
    let ?r = "scan_from procs (Suc 0 mod ?n) 0"
    have start: "Suc 0 mod ?n < ?n" using n_pos by (rule mod_less_divisor)
    have turn: "rr_turn procs (int ?n) quantum (int 0) 0 0 = Inr (procs, 0, 0)"
      using n_pos False by (rule rr_turn_done)
    have nxt: "rr_next (int 0) procs (int ?n) = Some (Inr ?r)"
      using assms(1) n_pos by (rule rr_next_eq)
    have unfold: "rr_loop procs (int ?n) quantum 0 0 0 =
          (if ?r = - 1 then Some (Inr (0, procs, 0))
           else rr_loop procs (int ?n) quantum ?r 0 0)"
      using turn nxt by (subst rr_loop.simps) simp
    show ?thesis
    proof (cases "?r = - 1")
      case True
      then have zero: "\<forall>i<?n. burst_left (procs ! i) = 0"
        using scan_from_none_iff [OF start] by simp
      then have "\<forall>p\<in>set procs. burst_left p = 0"
        by (auto simp add: in_set_conv_nth)
      then show ?thesis
        using unfold True by simp
    next
      case False
      then obtain i where i: "i < ?n" "?r = int i" "burst_left (procs ! i) \<noteq> 0"
        using scan_from_some [OF start] by blast
      then have "0 < burst_left (procs ! i)"
        using assms(4) by (simp add: order.strict_iff_order)
      then show ?thesis
        using live [OF i(1)] unfold False i(2) by simp
    qed
  qed
qed

section \<open>A quantum no shorter than any burst: round robin is first come, first served\<close>

lemma forget_turns_simps [simp]:
  "forget_turns None = None"
  "forget_turns (Some (Inl e)) = Some (Inl e)"
  "forget_turns (Some (Inr (t, procs, turns))) = Some (Inr (t, procs))"
  by (simp_all add: forget_turns_def)

lemma rr_after:
  assumes len: "int (length bursts) \<le> INT_MAX"
      and nn: "\<forall>b\<in>set bursts. 0 \<le> b"
      and c: "c < length bursts"
      and t: "in_int (prefix_sum bursts (Suc c))"
      and IH: "\<And>c' turns. c < c' \<Longrightarrow> c' < length bursts \<Longrightarrow> 0 < bursts ! c' \<Longrightarrow>
                 in_int (prefix_sum bursts c') \<Longrightarrow>
                 forget_turns (rr_loop (fcfs_state bursts c') (int (length bursts)) quantum (int c')
                                 (prefix_sum bursts c') turns) =
                 Some (fcfs_loop (fcfs_state bursts c') (int (length bursts)) (int c')
                         (prefix_sum bursts c'))"
  shows "forget_turns
           (case rr_next (int c) (fcfs_state bursts (Suc c)) (int (length bursts)) of
              None \<Rightarrow> None
            | Some (Inl e) \<Rightarrow> Some (Inl e)
            | Some (Inr nxt) \<Rightarrow>
                if nxt = - 1
                then Some (Inr (prefix_sum bursts (Suc c), fcfs_state bursts (Suc c), turns))
                else rr_loop (fcfs_state bursts (Suc c)) (int (length bursts)) quantum nxt
                       (prefix_sum bursts (Suc c)) turns) =
         Some (fcfs_loop (fcfs_state bursts (Suc c)) (int (length bursts)) (int (Suc c))
                 (prefix_sum bursts (Suc c)))"
proof -
  let ?n = "length bursts"
  let ?procs = "fcfs_state bursts (Suc c)"
  let ?t = "prefix_sum bursts (Suc c)"
  let ?r = "scan_from ?procs (Suc c mod ?n) 0"
  have n_pos: "0 < ?n" using c by (cases bursts) simp_all
  have burst: "\<And>k. k < ?n \<Longrightarrow> burst_left (?procs ! k) = (if k < Suc c then 0 else bursts ! k)"
    by (simp add: fcfs_state_nth)
  have "rr_next (int c) ?procs (int (length ?procs)) = Some (Inr (scan_from ?procs (Suc c mod length ?procs) 0))"
    using len c by (intro rr_next_eq) simp_all
  then have nxt: "rr_next (int c) ?procs (int ?n) = Some (Inr ?r)"
    by simp
  show ?thesis
  proof (cases "\<exists>k. c < k \<and> k < ?n \<and> bursts ! k \<noteq> 0")
    case True
    define c' where "c' = (LEAST k. c < k \<and> k < ?n \<and> bursts ! k \<noteq> 0)"
    have c': "c < c'" "c' < ?n" "bursts ! c' \<noteq> 0"
      using LeastI_ex [OF True] by (simp_all add: c'_def)
    have before: "\<And>k. c < k \<Longrightarrow> k < c' \<Longrightarrow> bursts ! k = 0"
    proof -
      fix k
      assume k: "c < k" "k < c'"
      then have "\<not> (c < k \<and> k < ?n \<and> bursts ! k \<noteq> 0)"
        unfolding c'_def by (rule_tac not_less_Least)
      then show "bursts ! k = 0"
        using k c'(2) by simp
    qed
    have live: "0 < bursts ! c'"
      using nn c'(2,3) by (simp add: order.strict_iff_order)
    have "?r = int c'"
    proof (rule scan_from_first [of c c' ?procs, simplified fcfs_state_length])
      show "c < c'" by (rule c'(1))
      show "c' < ?n" by (rule c'(2))
      show "burst_left (?procs ! c') \<noteq> 0"
        using c' by (simp add: burst)
      show "\<forall>k. c < k \<and> k < c' \<longrightarrow> burst_left (?procs ! k) = 0"
        using before c'(2) by (simp add: burst)
    qed
    moreover have run: "fcfs_state bursts c' = ?procs \<and> prefix_sum bursts c' = ?t"
      using c' before by (intro zero_run) simp_all
    moreover have "forget_turns (rr_loop (fcfs_state bursts c') (int ?n) quantum (int c')
                                 (prefix_sum bursts c') turns) =
                 Some (fcfs_loop (fcfs_state bursts c') (int ?n) (int c') (prefix_sum bursts c'))"
      using c'(1,2) live t run by (intro IH) simp_all
    moreover have "fcfs_loop ?procs (int ?n) (int (Suc c)) ?t =
          fcfs_loop (fcfs_state bursts c') (int ?n) (int c') (prefix_sum bursts c')"
      using c' before t by (intro fcfs_loop_skip) simp_all
    ultimately show ?thesis
      using nxt by simp
  next
    case False
    then have rest: "\<And>k. c < k \<Longrightarrow> k < ?n \<Longrightarrow> bursts ! k = 0"
      by blast
    have "\<forall>i<length ?procs. burst_left (?procs ! i) = 0"
      using rest by (simp add: burst)
    moreover have "Suc c mod ?n < length ?procs"
      using n_pos by simp
    ultimately have "?r = - 1"
      using scan_from_none_iff [of "Suc c mod ?n" ?procs] by simp
    moreover have run: "fcfs_state bursts ?n = ?procs \<and> prefix_sum bursts ?n = ?t"
      using c rest by (intro zero_run) simp_all
    moreover have "fcfs_loop ?procs (int ?n) (int (Suc c)) ?t =
          fcfs_loop (fcfs_state bursts ?n) (int ?n) (int ?n) (prefix_sum bursts ?n)"
      using c rest t by (intro fcfs_loop_skip) simp_all
    ultimately show ?thesis
      using nxt by (simp add: fcfs_loop_end)
  qed
qed

lemma rr_loop_fcfs_loop:
  assumes "int (length bursts) \<le> INT_MAX" "\<forall>b\<in>set bursts. 0 \<le> b" "\<forall>b\<in>set bursts. b \<le> quantum"
      and "c < length bursts" "0 < bursts ! c" "in_int (prefix_sum bursts c)"
  shows "forget_turns (rr_loop (fcfs_state bursts c) (int (length bursts)) quantum (int c)
                         (prefix_sum bursts c) turns) =
         Some (fcfs_loop (fcfs_state bursts c) (int (length bursts)) (int c) (prefix_sum bursts c))"
  using assms(4-6)
proof (induction "length bursts - c" arbitrary: c turns rule: less_induct)
  case less
  let ?n = "length bursts"
  define ok where
    "ok \<longleftrightarrow> advance_ok (fcfs_state bursts c) c (bursts ! c) \<and> in_int (prefix_sum bursts (Suc c))"
  have q: "bursts ! c \<le> quantum"
    using assms(3) less.prems(1) by simp
  have turn: "rr_turn (fcfs_state bursts c) (int ?n) quantum (int c) (prefix_sum bursts c) turns =
         (if ok then Inr (fcfs_state bursts (Suc c), prefix_sum bursts (Suc c), Suc turns)
          else Inl Overflow)"
    unfolding ok_def using less.prems(1,2) q by (rule rr_turn_full)
  have fcfs: "fcfs_loop (fcfs_state bursts c) (int ?n) (int c) (prefix_sum bursts c) =
         (if ok then fcfs_loop (fcfs_state bursts (Suc c)) (int ?n) (int (Suc c))
                        (prefix_sum bursts (Suc c))
          else Inl Overflow)"
    unfolding ok_def using less.prems(1) by (rule fcfs_loop_step_eq)
  show ?case
  proof (cases ok)
    case False
    then show ?thesis
      using turn fcfs by (subst rr_loop.simps) simp
  next
    case True
    have "forget_turns
           (case rr_next (int c) (fcfs_state bursts (Suc c)) (int ?n) of
              None \<Rightarrow> None
            | Some (Inl e) \<Rightarrow> Some (Inl e)
            | Some (Inr nxt) \<Rightarrow>
                if nxt = - 1
                then Some (Inr (prefix_sum bursts (Suc c), fcfs_state bursts (Suc c), Suc turns))
                else rr_loop (fcfs_state bursts (Suc c)) (int ?n) quantum nxt
                       (prefix_sum bursts (Suc c)) (Suc turns)) =
         Some (fcfs_loop (fcfs_state bursts (Suc c)) (int ?n) (int (Suc c))
                 (prefix_sum bursts (Suc c)))"
      using assms(1,2) less.prems(1)
    proof (rule rr_after)
      show "in_int (prefix_sum bursts (Suc c))" using True by (simp add: ok_def)
    next
      fix c' turns'
      assume "c < c'" "c' < ?n" "0 < bursts ! c'" "in_int (prefix_sum bursts c')"
      then show "forget_turns (rr_loop (fcfs_state bursts c') (int ?n) quantum (int c')
                                 (prefix_sum bursts c') turns') =
                 Some (fcfs_loop (fcfs_state bursts c') (int ?n) (int c') (prefix_sum bursts c'))"
        by (intro less.hyps) simp_all
    qed
    then show ?thesis
      using turn fcfs True by (subst rr_loop.simps) (simp del: of_nat_Suc)
  qed
qed

lemma rr_run_fcfs_run:
  assumes "int (length bursts) \<le> INT_MAX" "\<forall>b\<in>set bursts. 0 \<le> b" "\<forall>b\<in>set bursts. b \<le> quantum"
      and "bursts \<noteq> []"
  shows "rr_run (fcfs_state bursts 0) (int (length bursts)) quantum =
         Some (fcfs_run (fcfs_state bursts 0) (int (length bursts)))"
proof -
  let ?n = "length bursts"
  have n_pos: "0 < ?n" using assms(4) by simp
  have n_one: "Suc 0 \<le> ?n" using n_pos by linarith
  have zero_in: "in_int 0" by (simp add: in_int_def INT_MIN_def INT_MAX_def)
  have sim: "\<And>c turns. c < ?n \<Longrightarrow> 0 < bursts ! c \<Longrightarrow> in_int (prefix_sum bursts c) \<Longrightarrow>
        forget_turns (rr_loop (fcfs_state bursts c) (int ?n) quantum (int c) (prefix_sum bursts c) turns) =
        Some (fcfs_loop (fcfs_state bursts c) (int ?n) (int c) (prefix_sum bursts c))"
    using assms(1-3) by (rule rr_loop_fcfs_loop)
  show ?thesis
  proof (cases "0 < bursts ! 0")
    case True
    then show ?thesis
      using sim [of 0 0] n_pos zero_in by (simp add: rr_run_def fcfs_run_def)
  next
    case False
    have "0 \<le> bursts ! 0"
      using assms(2) nth_mem [of 0 bursts] n_pos by blast
    with False have b0: "bursts ! 0 = 0"
      by simp
    have same: "fcfs_state bursts (Suc 0) = fcfs_state bursts 0" "prefix_sum bursts (Suc 0) = 0"
      using n_pos b0 by (simp_all add: fcfs_state_skip prefix_sum_Suc)
    have turn: "rr_turn (fcfs_state bursts 0) (int (length (fcfs_state bursts 0))) quantum (int 0) 0 0 =
          Inr (fcfs_state bursts 0, 0, 0)"
      using n_pos b0 by (intro rr_turn_done) (simp_all add: fcfs_state_nth)
    have after: "forget_turns
           (case rr_next (int 0) (fcfs_state bursts (Suc 0)) (int ?n) of
              None \<Rightarrow> None
            | Some (Inl e) \<Rightarrow> Some (Inl e)
            | Some (Inr nxt) \<Rightarrow>
                if nxt = - 1
                then Some (Inr (prefix_sum bursts (Suc 0), fcfs_state bursts (Suc 0), 0))
                else rr_loop (fcfs_state bursts (Suc 0)) (int ?n) quantum nxt
                       (prefix_sum bursts (Suc 0)) 0) =
         Some (fcfs_loop (fcfs_state bursts (Suc 0)) (int ?n) (int (Suc 0))
                 (prefix_sum bursts (Suc 0)))"
      using assms(1,2) n_pos
    proof (rule rr_after)
      show "in_int (prefix_sum bursts (Suc 0))" using same zero_in by simp
    next
      fix c' turns'
      assume "0 < c'" "c' < ?n" "0 < bursts ! c'" "in_int (prefix_sum bursts c')"
      then show "forget_turns (rr_loop (fcfs_state bursts c') (int ?n) quantum (int c')
                                 (prefix_sum bursts c') turns') =
                 Some (fcfs_loop (fcfs_state bursts c') (int ?n) (int c') (prefix_sum bursts c'))"
        by (intro sim)
    qed
    have "fcfs_loop (fcfs_state bursts 0) (int ?n) (int 0) (prefix_sum bursts 0) =
          fcfs_loop (fcfs_state bursts (Suc 0)) (int ?n) (int (Suc 0)) (prefix_sum bursts (Suc 0))"
      using n_one b0 zero_in by (intro fcfs_loop_skip) simp_all
    then have "fcfs_run (fcfs_state bursts 0) (int ?n) =
          fcfs_loop (fcfs_state bursts 0) (int ?n) (int (Suc 0)) 0"
      unfolding same by (simp add: fcfs_run_def)
    moreover have "rr_run (fcfs_state bursts 0) (int ?n) quantum =
          forget_turns
           (case rr_next (int 0) (fcfs_state bursts 0) (int ?n) of
              None \<Rightarrow> None
            | Some (Inl e) \<Rightarrow> Some (Inl e)
            | Some (Inr nxt) \<Rightarrow>
                if nxt = - 1
                then Some (Inr (0, fcfs_state bursts 0, 0))
                else rr_loop (fcfs_state bursts 0) (int ?n) quantum nxt 0 0)"
      unfolding rr_run_def using turn
      by (subst rr_loop.simps) simp
    ultimately show ?thesis
      using after [unfolded same] by simp
  qed
qed

section \<open>Runs on a freshly built table\<close>

lemma init_procs_table:
  assumes "init_procs True bursts (int (length bursts)) = Inr (Some procs)"
  shows "procs = fcfs_state bursts 0"
  using assms by (simp add: init_procs_fcfs_state)

lemma fcfs_state_0_set:
  assumes "p \<in> set (fcfs_state bursts 0)"
  shows "burst_left p \<in> set bursts \<and> wait p = 0"
proof -
  obtain k where "k < length bursts" "p = fcfs_state bursts 0 ! k"
    using assms by (auto simp add: in_set_conv_nth)
  then show ?thesis
    by (simp add: fcfs_state_nth)
qed

lemma work_left_fcfs_state_0: "work_left (fcfs_state bursts 0) = sum_list bursts"
proof -
  have "map burst_left (fcfs_state bursts 0) = bursts"
    by (rule nth_equalityI) (simp_all add: fcfs_state_nth)
  then show ?thesis
    by (simp add: work_left_def)
qed

lemma fcfs_run_table:
  assumes "\<forall>b\<in>set bursts. 0 \<le> b" "sum_list bursts \<le> INT_MAX"
  shows "fcfs_run (fcfs_state bursts 0) (int (length bursts)) =
         Inr (sum_list bursts, fcfs_state bursts (length bursts))"
  using fcfs_loop_from [OF assms, of 0] by (simp add: fcfs_run_def)

lemma rr_loop_table:
  assumes "\<forall>b\<in>set bursts. 0 \<le> b" "sum_list bursts \<le> INT_MAX"
      and "bursts \<noteq> []" "0 < quantum" "int (length bursts) \<le> INT_MAX"
  shows "\<exists>final turns.
           rr_loop (fcfs_state bursts 0) (int (length bursts)) quantum 0 0 0 =
             Some (Inr (sum_list bursts, final, turns)) \<and>
           turns \<le> nat (sum_list bursts) \<and>
           length final = length bursts \<and> (\<forall>p\<in>set final. burst_left p = 0)"
proof -
  let ?procs = "fcfs_state bursts 0"
  have "\<exists>final turns'.
           rr_loop ?procs (int (length ?procs)) quantum 0 0 0 =
             Some (Inr (work_left ?procs, final, turns')) \<and>
           turns' \<le> nat (work_left ?procs) \<and>
           length final = length ?procs \<and> (\<forall>p\<in>set final. burst_left p = 0)"
  proof (rule rr_loop_start)
    show "int (length ?procs) \<le> INT_MAX" using assms(5) by simp
    show "?procs \<noteq> []" using assms(3) by (simp add: fcfs_state_def)
    show "0 < quantum" by (rule assms(4))
    show "\<forall>p\<in>set ?procs. 0 \<le> burst_left p"
      using assms(1) fcfs_state_0_set by blast
    show "\<forall>p\<in>set ?procs. wait p = 0"
      using fcfs_state_0_set by blast
    show "work_left ?procs \<le> INT_MAX"
      using assms(2) by (simp add: work_left_fcfs_state_0)
  qed
  then show ?thesis
    by (simp add: work_left_fcfs_state_0)
qed

lemma rr_loop_ends_table:
  assumes "\<forall>b\<in>set bursts. 0 \<le> b" "bursts \<noteq> []" "0 < quantum" "int (length bursts) \<le> INT_MAX"
  shows "\<exists>r. rr_loop (fcfs_state bursts 0) (int (length bursts)) quantum 0 0 0 = Some r \<and>
           (r = Inl Overflow \<and> INT_MAX < sum_list bursts \<or>
            (\<exists>t final turns. r = Inr (t, final, turns) \<and>
               turns \<le> nat (sum_list bursts) \<and> (\<forall>p\<in>set final. burst_left p = 0)))"
proof -
  let ?procs = "fcfs_state bursts 0"
  have "\<exists>r. rr_loop ?procs (int (length ?procs)) quantum 0 0 0 = Some r \<and>
           (r = Inl Overflow \<or>
            (\<exists>t' final turns'. r = Inr (t', final, turns') \<and>
               turns' \<le> nat (work_left ?procs) \<and>
               length final = length ?procs \<and> (\<forall>p\<in>set final. burst_left p = 0)))"
  proof (rule rr_loop_ends_start)
    show "int (length ?procs) \<le> INT_MAX" using assms(4) by simp
    show "?procs \<noteq> []" using assms(2) by (simp add: fcfs_state_def)
    show "0 < quantum" by (rule assms(3))
    show "\<forall>p\<in>set ?procs. 0 \<le> burst_left p"
      using assms(1) fcfs_state_0_set by blast
  qed
  then obtain r where r: "rr_loop ?procs (int (length bursts)) quantum 0 0 0 = Some r"
    "r = Inl Overflow \<or>
       (\<exists>t final turns. r = Inr (t, final, turns) \<and>
          turns \<le> nat (sum_list bursts) \<and> (\<forall>p\<in>set final. burst_left p = 0))"
    by (auto simp add: work_left_fcfs_state_0)
  have "INT_MAX < sum_list bursts" if overflow: "r = Inl Overflow"
  proof (rule ccontr)
    assume "\<not> INT_MAX < sum_list bursts"
    then have "sum_list bursts \<le> INT_MAX" by simp
    then obtain final turns where
      "rr_loop ?procs (int (length bursts)) quantum 0 0 0 = Some (Inr (sum_list bursts, final, turns))"
      using rr_loop_table [OF assms(1) _ assms(2-4)] by blast
    then show False
      using r(1) overflow by simp
  qed
  then show ?thesis
    using r by blast
qed

section \<open>\<^verbatim>\<open>run_proc\<close> under the preconditions of Advance\<close>

lemma run_proc_advance:
  assumes "0 \<le> target" "target < int (length procs)"
      and "1 \<le> amount" "amount \<le> burst_left (procs ! nat target)"
      and "\<forall>p\<in>set procs. in_int (burst_left p) \<and> in_int (wait p)"
      and "\<forall>k<length procs. int k \<noteq> target \<and> 0 < burst_left (procs ! k) \<longrightarrow>
             wait (procs ! k) + amount \<le> INT_MAX"
  shows "run_proc procs (int (length procs)) target amount = Inr (advance procs (nat target) amount)"
proof -
  define c where "c = nat target"
  have c: "target = int c" "c < length procs"
    using assms(1,2) unfolding c_def by linarith+
  have fields: "\<And>k. k < length procs \<Longrightarrow> in_int (burst_left (procs ! k)) \<and> in_int (wait (procs ! k))"
    using assms(5) by simp
  have "advance_ok procs c amount"
    unfolding advance_ok_def
  proof (intro conjI allI impI)
    show "in_int (burst_left (procs ! c) - amount)"
      using fields [OF c(2)] assms(3,4) c(1) by (simp add: in_int_def INT_MIN_def)
  next
    fix k
    assume k: "k < length procs" "k \<noteq> c \<and> 0 < burst_left (procs ! k)"
    then have "wait (procs ! k) + amount \<le> INT_MAX"
      using assms(6) c(1) by simp
    then show "in_int (wait (procs ! k) + amount)"
      using fields [OF k(1)] assms(3) by (simp add: in_int_def)
  qed
  then show ?thesis
    using run_proc_eq [OF c(2), of amount] c(1) by simp
qed

section \<open>The scan of \<^verbatim>\<open>rr_next\<close> and the next candidate of the spec\<close>

lemma next_candidate_scan:
  assumes "\<forall>p\<in>set procs. 0 \<le> burst_left p"
  shows "next_candidate procs c = scan_from procs (Suc c mod length procs) 0"
proof -
  let ?n = "length procs"
  let ?probes = "map (\<lambda>k. (Suc c mod ?n + k) mod ?n) [0..<?n]"
  have "find (\<lambda>i. 0 < burst_left (procs ! i)) ?probes = find (\<lambda>i. burst_left (procs ! i) \<noteq> 0) ?probes"
  proof (rule find_cong)
    show "?probes = ?probes" by (rule refl)
  next
    fix i
    assume "i \<in> set ?probes"
    then have "i < ?n"
      by (cases "?n = 0") auto
    then have "0 \<le> burst_left (procs ! i)"
      using assms by simp
    then show "(0 < burst_left (procs ! i)) = (burst_left (procs ! i) \<noteq> 0)"
      by auto
  qed
  then show ?thesis
    by (simp add: next_candidate_def scan_from_def)
qed

lemma all_zero_set: "(\<forall>i<length procs. burst_left (procs ! i) = 0) \<longleftrightarrow> (\<forall>p\<in>set procs. burst_left p = 0)"
  by (metis in_set_conv_nth)

lemma next_candidate_first:
  assumes "\<forall>p\<in>set procs. 0 \<le> burst_left p" "next_candidate procs c = int r"
  shows "\<exists>k<length procs. r = (c + 1 + k) mod length procs \<and> 0 < burst_left (procs ! r) \<and>
           (\<forall>j<k. burst_left (procs ! ((c + 1 + j) mod length procs)) = 0)"
proof -
  let ?n = "length procs"
  let ?f = "\<lambda>k. ((c + 1) mod ?n + k) mod ?n"
  let ?P = "\<lambda>i. 0 < burst_left (procs ! i)"
  have f: "\<And>k. ?f k = (c + 1 + k) mod ?n"
    by (simp add: mod_add_left_eq)
  have "find ?P (map ?f [0..<?n]) = Some r"
    using assms(2) by (simp add: next_candidate_def split: option.splits)
  then obtain i where i: "i < ?n" "?P (map ?f [0..<?n] ! i)" "r = map ?f [0..<?n] ! i"
      "\<forall>j<i. \<not> ?P (map ?f [0..<?n] ! j)"
    unfolding find_Some_iff by auto
  have r: "r = (c + 1 + i) mod ?n"
    using i(1,3) f by simp
  have live: "0 < burst_left (procs ! r)"
    using i(1,2,3) by simp
  have "burst_left (procs ! ((c + 1 + j) mod ?n)) = 0" if j: "j < i" for j
  proof -
    have "j < ?n" using j i(1) by simp
    then have "map ?f [0..<?n] ! j = (c + 1 + j) mod ?n"
      using f by simp
    moreover have "\<not> ?P (map ?f [0..<?n] ! j)"
      using i(4) j by blast
    ultimately have "\<not> 0 < burst_left (procs ! ((c + 1 + j) mod ?n))"
      by simp
    moreover have "0 < ?n"
      using i(1) by (cases procs) simp_all
    then have "(c + 1 + j) mod ?n < ?n"
      by (rule mod_less_divisor)
    then have "0 \<le> burst_left (procs ! ((c + 1 + j) mod ?n))"
      using assms(1) by simp
    ultimately show ?thesis by simp
  qed
  then show ?thesis
    using i(1) r live by blast
qed

section \<open>The claims\<close>

subsection \<open>C1: both schedulers return the total work\<close>

text \<open>
  Claim C1, as amended. Let the table be built by \<^verbatim>\<open>init_procs\<close> from non-negative bursts whose
  sum is at most \<open>INT_MAX\<close>. Then \<^verbatim>\<open>fcfs_run\<close> returns exactly the sum of the bursts, and so
  does \<^verbatim>\<open>rr_run\<close> for every positive quantum when the table is not empty (its length is
  the \<^verbatim>\<open>int\<close> argument \<open>plen\<close>, so it is at most \<open>INT_MAX\<close>).
\<close>

theorem run_returns_total_work:
  assumes "init_procs True bursts (int (length bursts)) = Inr (Some procs)"
      and "\<forall>b\<in>set bursts. 0 \<le> b" "sum_list bursts \<le> INT_MAX"
  shows "(\<exists>final. fcfs_run procs (int (length bursts)) = Inr (sum_list bursts, final)) \<and>
         (bursts \<noteq> [] \<and> 0 < quantum \<and> int (length bursts) \<le> INT_MAX \<longrightarrow>
            (\<exists>final. rr_run procs (int (length bursts)) quantum =
                       Some (Inr (sum_list bursts, final))))"
proof -
  have procs: "procs = fcfs_state bursts 0"
    using assms(1) by (rule init_procs_table)
  have "\<exists>final. rr_run procs (int (length bursts)) quantum = Some (Inr (sum_list bursts, final))"
    if rr: "bursts \<noteq> []" "0 < quantum" "int (length bursts) \<le> INT_MAX"
  proof -
    obtain final turns where
      "rr_loop (fcfs_state bursts 0) (int (length bursts)) quantum 0 0 0 =
         Some (Inr (sum_list bursts, final, turns))"
      using rr_loop_table [OF assms(2,3) rr] by blast
    then show ?thesis
      by (simp add: rr_run_def procs forget_turns_def)
  qed
  then show ?thesis
    using fcfs_run_table [OF assms(2,3)] procs by simp
qed

text \<open>The bursts 5, 3, 8 with quantum 3: both schedulers return 16.\<close>

theorem run_returns_total_work_witness:
  "(\<exists>final. fcfs_run [\<lparr>pid = 0, burst_left = 5, wait = 0\<rparr>, \<lparr>pid = 1, burst_left = 3, wait = 0\<rparr>,
                        \<lparr>pid = 2, burst_left = 8, wait = 0\<rparr>] 3 = Inr (16, final)) \<and>
   (\<exists>final. rr_run [\<lparr>pid = 0, burst_left = 5, wait = 0\<rparr>, \<lparr>pid = 1, burst_left = 3, wait = 0\<rparr>,
                      \<lparr>pid = 2, burst_left = 8, wait = 0\<rparr>] 3 3 = Some (Inr (16, final)))"
proof -
  let ?procs = "[\<lparr>pid = 0, burst_left = 5, wait = 0\<rparr>, \<lparr>pid = 1, burst_left = 3, wait = 0\<rparr>,
                 \<lparr>pid = 2, burst_left = 8, wait = 0\<rparr>]"
  have table: "init_procs True [5, 3, 8] (int (length [5, 3, 8 :: int])) = Inr (Some ?procs)"
    by (simp add: init_procs_def upt_rec)
  have bursts: "\<forall>b\<in>set [5, 3, 8 :: int]. 0 \<le> b"
    by simp
  have total: "sum_list [5, 3, 8 :: int] \<le> INT_MAX"
    by (simp add: INT_MAX_def)
  show ?thesis
    using run_returns_total_work [OF table bursts total, of 3]
    by (simp add: INT_MAX_def)
qed

text \<open>
  The claim as stated fails in two places. For the bursts 2147483647 and 1 the sum is not an
  \<^verbatim>\<open>int\<close>: \<^verbatim>\<open>current_time += burst\<close> overflows in both schedulers, which is undefined
  behaviour, and no sum is returned. On the empty table \<^verbatim>\<open>rr_run\<close> reads \<^verbatim>\<open>procs[0]\<close>, which is
  outside the table, instead of returning 0.
\<close>

theorem run_returns_total_work_counterexample:
  "init_procs True [2147483647, 1] 2 =
     Inr (Some [\<lparr>pid = 0, burst_left = 2147483647, wait = 0\<rparr>, \<lparr>pid = 1, burst_left = 1, wait = 0\<rparr>]) \<and>
   fcfs_run [\<lparr>pid = 0, burst_left = 2147483647, wait = 0\<rparr>, \<lparr>pid = 1, burst_left = 1, wait = 0\<rparr>] 2 =
     Inl Overflow \<and>
   rr_run [\<lparr>pid = 0, burst_left = 2147483647, wait = 0\<rparr>, \<lparr>pid = 1, burst_left = 1, wait = 0\<rparr>] 2 1000000000 =
     Some (Inl Overflow) \<and>
   init_procs True [] 0 = Inr (Some []) \<and>
   rr_run [] 0 1 = Some (Inl OutOfBounds)"
  by code_simp

subsection \<open>C2: the empty table\<close>

text \<open>
  Claim C2 says that both schedulers return 0 on the empty table, reading no index out of
  range and taking no remainder by zero. That holds for \<^verbatim>\<open>fcfs_run\<close>, whose loop is not
  entered. \<^verbatim>\<open>rr_run\<close> has no such guard: its first statement reads \<^verbatim>\<open>procs[0]\<close>, which the
  empty table does not have, and the call of \<^verbatim>\<open>rr_next\<close> that follows computes
  \<^verbatim>\<open>(current + 1) % 0\<close>.
\<close>

theorem empty_table_outcomes:
  "init_procs True [] 0 = Inr (Some []) \<and>
   fcfs_run [] 0 = Inr (0, []) \<and>
   rr_run [] 0 quantum = Some (Inl OutOfBounds) \<and>
   rr_next 0 [] 0 = Some (Inl DivByZero)"
proof -
  have "rr_next 0 [] 0 = Some (Inl DivByZero)"
    by code_simp
  moreover have "fcfs_run [] 0 = Inr (0, [])"
    by code_simp
  moreover have "rr_run [] 0 quantum = Some (Inl OutOfBounds)"
    by (simp add: rr_run_def rr_loop.simps rr_turn_def proc_at_def forget_turns_def)
  ultimately show ?thesis
    by (simp add: init_procs_def)
qed

subsection \<open>C3: the effect of \<^verbatim>\<open>run_proc\<close>\<close>

text \<open>
  Claim C3, as amended. Let \<open>target\<close> be a valid index of the table, \<open>1 \<le> amount \<le>\<close> the
  remaining burst of the target, every field an \<^verbatim>\<open>int\<close>, and let \<open>wait + amount\<close> be at most
  \<open>INT_MAX\<close> for every other process that has burst left. Then \<^verbatim>\<open>run_proc\<close> returns, the
  remaining burst of the target has decreased by exactly \<open>amount\<close>, the wait of every other
  process with a positive remaining burst has increased by exactly \<open>amount\<close>, and every other
  field (the wait of the target and of the complete processes among them) is unchanged.
\<close>

theorem run_proc_effect:
  assumes "0 \<le> target" "target < int (length procs)"
      and "1 \<le> amount" "amount \<le> burst_left (procs ! nat target)"
      and "\<forall>p\<in>set procs. in_int (burst_left p) \<and> in_int (wait p)"
      and "\<forall>k<length procs. int k \<noteq> target \<and> 0 < burst_left (procs ! k) \<longrightarrow>
             wait (procs ! k) + amount \<le> INT_MAX"
  shows "\<exists>procs'. run_proc procs (int (length procs)) target amount = Inr procs' \<and>
           length procs' = length procs \<and>
           (\<forall>k<length procs.
              pid (procs' ! k) = pid (procs ! k) \<and>
              burst_left (procs' ! k) =
                (if int k = target then burst_left (procs ! k) - amount else burst_left (procs ! k)) \<and>
              wait (procs' ! k) =
                (if int k \<noteq> target \<and> 0 < burst_left (procs ! k) then wait (procs ! k) + amount
                 else wait (procs ! k)))"
proof -
  have "run_proc procs (int (length procs)) target amount = Inr (advance procs (nat target) amount)"
    using assms by (rule run_proc_advance)
  moreover have "\<And>k. int k = target \<longleftrightarrow> k = nat target"
    using assms(1) by auto
  ultimately show ?thesis
    by (simp add: advance_nth)
qed

text \<open>
  Process 0 runs for 3 of its 5 units: process 1, which has burst left, waits 3 longer;
  process 2, which is complete, does not.
\<close>

theorem run_proc_effect_witness:
  "\<exists>procs'. run_proc [\<lparr>pid = 0, burst_left = 5, wait = 0\<rparr>, \<lparr>pid = 1, burst_left = 3, wait = 4\<rparr>,
                       \<lparr>pid = 2, burst_left = 0, wait = 7\<rparr>] 3 0 3 = Inr procs' \<and>
     burst_left (procs' ! 0) = 2 \<and> wait (procs' ! 0) = 0 \<and>
     burst_left (procs' ! 1) = 3 \<and> wait (procs' ! 1) = 7 \<and>
     burst_left (procs' ! 2) = 0 \<and> wait (procs' ! 2) = 7"
proof -
  let ?procs = "[\<lparr>pid = 0, burst_left = 5, wait = 0\<rparr>, \<lparr>pid = 1, burst_left = 3, wait = 4\<rparr>,
                 \<lparr>pid = 2, burst_left = 0, wait = 7\<rparr>]"
  have index: "(0::int) \<le> 0" "0 < int (length ?procs)"
    by simp_all
  have amount: "(1::int) \<le> 3" "3 \<le> burst_left (?procs ! nat 0)"
    by simp_all
  have ints: "\<forall>p\<in>set ?procs. in_int (burst_left p) \<and> in_int (wait p)"
    by (simp add: in_int_def INT_MIN_def INT_MAX_def)
  have room: "\<forall>k<length ?procs. int k \<noteq> 0 \<and> 0 < burst_left (?procs ! k) \<longrightarrow>
                wait (?procs ! k) + 3 \<le> INT_MAX"
    by (simp add: INT_MAX_def less_Suc_eq)
  obtain procs' where run: "run_proc ?procs (int (length ?procs)) 0 3 = Inr procs'"
    and eff: "\<forall>k<length ?procs.
              pid (procs' ! k) = pid (?procs ! k) \<and>
              burst_left (procs' ! k) =
                (if int k = 0 then burst_left (?procs ! k) - 3 else burst_left (?procs ! k)) \<and>
              wait (procs' ! k) =
                (if int k \<noteq> 0 \<and> 0 < burst_left (?procs ! k) then wait (?procs ! k) + 3
                 else wait (?procs ! k))"
    using run_proc_effect [OF index amount ints room] by blast
  have "burst_left (procs' ! 0) = 2 \<and> wait (procs' ! 0) = 0"
    using eff [rule_format, of 0] by simp
  moreover have "burst_left (procs' ! 1) = 3 \<and> wait (procs' ! 1) = 7"
    using eff [rule_format, of 1] by simp
  moreover have "burst_left (procs' ! 2) = 0 \<and> wait (procs' ! 2) = 7"
    using eff [rule_format, of 2] by simp
  ultimately show ?thesis
    using run by simp
qed

text \<open>
  The claim as stated fails where a wait cannot grow by \<open>amount\<close>. In the table below,
  index 1 is valid and 1 is at most its remaining burst, but process 2 has waited 2147483647
  already: \<^verbatim>\<open>procs[2].wait += 1\<close> overflows, which is undefined behaviour. \<^verbatim>\<open>fcfs_run\<close> reaches
  this table from the bursts 2147483647, 1, 1 after its first step.
\<close>

theorem run_proc_effect_counterexample:
  "run_proc [\<lparr>pid = 0, burst_left = 0, wait = 0\<rparr>, \<lparr>pid = 1, burst_left = 1, wait = 2147483647\<rparr>,
             \<lparr>pid = 2, burst_left = 1, wait = 2147483647\<rparr>] 3 1 1 = Inl Overflow \<and>
   fcfs_loop [\<lparr>pid = 0, burst_left = 2147483647, wait = 0\<rparr>, \<lparr>pid = 1, burst_left = 1, wait = 0\<rparr>,
              \<lparr>pid = 2, burst_left = 1, wait = 0\<rparr>] 3 0 0 =
   fcfs_loop [\<lparr>pid = 0, burst_left = 0, wait = 0\<rparr>, \<lparr>pid = 1, burst_left = 1, wait = 2147483647\<rparr>,
              \<lparr>pid = 2, burst_left = 1, wait = 2147483647\<rparr>] 3 1 2147483647"
  by code_simp

subsection \<open>C4: \<^verbatim>\<open>rr_next\<close> finds the first live process in circular order\<close>

text \<open>
  Claim C4. For every non-empty table (of non-negative remaining bursts, with an \<^verbatim>\<open>int\<close> as
  length) and every index \<open>current\<close> of it, \<^verbatim>\<open>rr_next\<close> returns what \<open>next_candidate\<close>, the
  NextCandidate of the spec, prescribes: the first index with a positive remaining burst in
  the circular scan that starts at \<open>(current + 1) mod length\<close>, every process probed before
  it having remaining burst 0. It returns \<open>- 1\<close> exactly when
  every process has remaining burst 0. In particular, in a table of length 1 whose process
  has burst left it returns that same index.
\<close>

theorem rr_next_first_live:
  assumes "procs \<noteq> []" "int (length procs) \<le> INT_MAX"
      and "0 \<le> current" "current < int (length procs)"
      and "\<forall>p\<in>set procs. 0 \<le> burst_left p"
  shows "rr_next current procs (int (length procs)) = Some (Inr (next_candidate procs (nat current))) \<and>
         (\<forall>r. next_candidate procs (nat current) = int r \<longrightarrow>
            (\<exists>k<length procs.
               r = (nat current + 1 + k) mod length procs \<and> 0 < burst_left (procs ! r) \<and>
               (\<forall>j<k. burst_left (procs ! ((nat current + 1 + j) mod length procs)) = 0))) \<and>
         (next_candidate procs (nat current) = - 1 \<longleftrightarrow> (\<forall>p\<in>set procs. burst_left p = 0)) \<and>
         (length procs = 1 \<and> 0 < burst_left (procs ! 0) \<longrightarrow>
            rr_next current procs (int (length procs)) = Some (Inr current))"
proof -
  let ?n = "length procs"
  define c where "c = nat current"
  have c: "current = int c" "c < ?n"
    using assms(3,4) unfolding c_def by linarith+
  have n_pos: "0 < ?n" using assms(1) by simp
  have scan: "next_candidate procs c = scan_from procs (Suc c mod ?n) 0"
    using assms(5) by (rule next_candidate_scan)
  have nxt: "rr_next current procs (int ?n) = Some (Inr (next_candidate procs c))"
    using rr_next_eq [OF assms(2) c(2)] c(1) scan by simp
  have start: "Suc c mod ?n < ?n"
    using n_pos by (rule mod_less_divisor)
  have none: "next_candidate procs c = - 1 \<longleftrightarrow> (\<forall>p\<in>set procs. burst_left p = 0)"
    using scan_from_none_iff [OF start] scan all_zero_set by simp
  have one: "rr_next current procs (int ?n) = Some (Inr current)"
    if single: "?n = 1 \<and> 0 < burst_left (procs ! 0)"
  proof -
    have "c = 0" using c(2) single by simp
    then have "next_candidate procs c = current"
      using single c(1) by (simp add: next_candidate_def)
    then show ?thesis
      using nxt by simp
  qed
  show ?thesis
  proof (intro conjI impI)
    show "rr_next current procs (int ?n) = Some (Inr (next_candidate procs (nat current)))"
      using nxt by (simp add: c_def)
    show "\<forall>r. next_candidate procs (nat current) = int r \<longrightarrow>
            (\<exists>k<length procs.
               r = (nat current + 1 + k) mod length procs \<and> 0 < burst_left (procs ! r) \<and>
               (\<forall>j<k. burst_left (procs ! ((nat current + 1 + j) mod length procs)) = 0))"
      using next_candidate_first [OF assms(5)] by blast
    show "next_candidate procs (nat current) = - 1 \<longleftrightarrow> (\<forall>p\<in>set procs. burst_left p = 0)"
      using none by (simp add: c_def)
    show "rr_next current procs (int ?n) = Some (Inr current)"
      if "?n = 1 \<and> 0 < burst_left (procs ! 0)"
      using that by (rule one)
  qed
qed

text \<open>
  From index 1 of a table whose processes 2 and 3 are complete, the scan wraps around and
  answers 0.
\<close>

theorem rr_next_first_live_witness:
  "rr_next 1 [\<lparr>pid = 0, burst_left = 4, wait = 0\<rparr>, \<lparr>pid = 1, burst_left = 3, wait = 0\<rparr>,
              \<lparr>pid = 2, burst_left = 0, wait = 0\<rparr>, \<lparr>pid = 3, burst_left = 0, wait = 0\<rparr>] 4 = Some (Inr 0) \<and>
   next_candidate [\<lparr>pid = 0, burst_left = 4, wait = 0\<rparr>, \<lparr>pid = 1, burst_left = 3, wait = 0\<rparr>,
              \<lparr>pid = 2, burst_left = 0, wait = 0\<rparr>, \<lparr>pid = 3, burst_left = 0, wait = 0\<rparr>] 1 = 0"
proof -
  let ?procs = "[\<lparr>pid = 0, burst_left = 4, wait = 0\<rparr>, \<lparr>pid = 1, burst_left = 3, wait = 0\<rparr>,
                 \<lparr>pid = 2, burst_left = 0, wait = 0\<rparr>, \<lparr>pid = 3, burst_left = 0, wait = 0\<rparr>]"
  have table: "?procs \<noteq> []" "int (length ?procs) \<le> INT_MAX"
    by (simp_all add: INT_MAX_def)
  have index: "(0::int) \<le> 1" "1 < int (length ?procs)"
    by simp_all
  have bursts: "\<forall>p\<in>set ?procs. 0 \<le> burst_left p"
    by simp
  have candidate: "next_candidate ?procs (nat 1) = 0"
    by code_simp
  show ?thesis
    using rr_next_first_live [OF table index bursts] candidate by simp
qed

subsection \<open>C5: \<^verbatim>\<open>rr_run\<close> terminates\<close>

text \<open>
  Claim C5. For every non-empty table built from non-negative bursts and every positive
  quantum, \<^verbatim>\<open>rr_run\<close> terminates: the loop never runs forever (its result is never \<open>None\<close>).
  Whenever a process with burst left has its turn, \<^verbatim>\<open>run_proc\<close> is called once and the
  remaining burst of that process strictly decreases; so a run that returns has made at most
  sum-of-the-initial-bursts such steps, and has left no burst. The only other way the run can
  end is the signed overflow of a time or a wait, and that needs bursts whose sum exceeds
  \<open>INT_MAX\<close>: the loop conditions read remaining bursts only, never the time or a wait.
\<close>

theorem rr_run_terminates:
  assumes "init_procs True bursts (int (length bursts)) = Inr (Some procs)"
      and "\<forall>b\<in>set bursts. 0 \<le> b"
      and "bursts \<noteq> []" "0 < quantum" "int (length bursts) \<le> INT_MAX"
  shows "(\<exists>r. rr_loop procs (int (length bursts)) quantum 0 0 0 = Some r \<and>
            (r = Inl Overflow \<and> INT_MAX < sum_list bursts \<or>
             (\<exists>t final turns. r = Inr (t, final, turns) \<and>
                turns \<le> nat (sum_list bursts) \<and> (\<forall>p\<in>set final. burst_left p = 0)))) \<and>
         rr_run procs (int (length bursts)) quantum \<noteq> None \<and>
         (\<forall>ps c t n ps' t' n'.
            c < length ps \<and> 0 < burst_left (ps ! c) \<and>
            rr_turn ps (int (length ps)) quantum (int c) t n = Inr (ps', t', n') \<longrightarrow>
            burst_left (ps' ! c) < burst_left (ps ! c) \<and> n' = Suc n)"
proof -
  have procs: "procs = fcfs_state bursts 0"
    using assms(1) by (rule init_procs_table)
  obtain r where run: "rr_loop procs (int (length bursts)) quantum 0 0 0 = Some r"
    and how: "r = Inl Overflow \<and> INT_MAX < sum_list bursts \<or>
       (\<exists>t final turns. r = Inr (t, final, turns) \<and>
          turns \<le> nat (sum_list bursts) \<and> (\<forall>p\<in>set final. burst_left p = 0))"
    using rr_loop_ends_table [OF assms(2-5)] procs by blast
  have returns: "rr_run procs (int (length bursts)) quantum \<noteq> None"
    using run how by (auto simp add: rr_run_def)
  have "burst_left (ps' ! c) < burst_left (ps ! c) \<and> n' = Suc n"
    if turn: "c < length ps" "0 < burst_left (ps ! c)"
       "rr_turn ps (int (length ps)) quantum (int c) t n = Inr (ps', t', n')"
    for ps c t n ps' t' n'
  proof -
    define amount where "amount = (if burst_left (ps ! c) < quantum then burst_left (ps ! c) else quantum)"
    have "0 < amount"
      using turn(2) assms(4) by (simp add: amount_def)
    moreover have "ps' = advance ps c amount \<and> n' = Suc n"
      using turn(3) rr_turn_live_eq [OF turn(1,2) amount_def, of t n]
      by (simp split: if_splits)
    ultimately show ?thesis
      using turn(1) by (simp add: advance_nth)
  qed
  then show ?thesis
    using run how returns by blast
qed

text \<open>
  The bursts 5, 3, 8 with quantum 3: the run returns, after at most 16 steps. Two bursts of
  2147483647 with that quantum: the sum is no \<^verbatim>\<open>int\<close>, and the run ends all the same.
\<close>

theorem rr_run_terminates_witness:
  "(\<exists>t final turns.
      rr_loop [\<lparr>pid = 0, burst_left = 5, wait = 0\<rparr>, \<lparr>pid = 1, burst_left = 3, wait = 0\<rparr>,
               \<lparr>pid = 2, burst_left = 8, wait = 0\<rparr>] 3 3 0 0 0 = Some (Inr (t, final, turns)) \<and>
      turns \<le> 16) \<and>
   rr_run [\<lparr>pid = 0, burst_left = 2147483647, wait = 0\<rparr>,
           \<lparr>pid = 1, burst_left = 2147483647, wait = 0\<rparr>] 2 2147483647 \<noteq> None"
proof -
  let ?procs = "[\<lparr>pid = 0, burst_left = 5, wait = 0\<rparr>, \<lparr>pid = 1, burst_left = 3, wait = 0\<rparr>,
                 \<lparr>pid = 2, burst_left = 8, wait = 0\<rparr>]"
  let ?big = "[\<lparr>pid = 0, burst_left = 2147483647, wait = 0\<rparr>,
               \<lparr>pid = 1, burst_left = 2147483647, wait = 0\<rparr>]"
  have table: "init_procs True [5, 3, 8] (int (length [5, 3, 8 :: int])) = Inr (Some ?procs)"
    by (simp add: init_procs_def upt_rec)
  have bursts: "\<forall>b\<in>set [5, 3, 8 :: int]. 0 \<le> b"
    by simp
  have rr: "[5, 3, 8 :: int] \<noteq> []" "(0::int) < 3" "int (length [5, 3, 8 :: int]) \<le> INT_MAX"
    by (simp_all add: INT_MAX_def)
  have "\<exists>r. rr_loop ?procs (int (length [5, 3, 8 :: int])) 3 0 0 0 = Some r \<and>
            (r = Inl Overflow \<and> INT_MAX < sum_list [5, 3, 8 :: int] \<or>
             (\<exists>t final turns. r = Inr (t, final, turns) \<and>
                turns \<le> nat (sum_list [5, 3, 8 :: int]) \<and> (\<forall>p\<in>set final. burst_left p = 0)))"
    using rr_run_terminates [OF table bursts rr] by (rule conjunct1)
  then have small: "\<exists>t final turns. rr_loop ?procs 3 3 0 0 0 = Some (Inr (t, final, turns)) \<and> turns \<le> 16"
    by (simp add: INT_MAX_def) blast
  have big_table: "init_procs True [2147483647, 2147483647]
      (int (length [2147483647, 2147483647 :: int])) = Inr (Some ?big)"
    by (simp add: init_procs_def upt_rec)
  have big_bursts: "\<forall>b\<in>set [2147483647, 2147483647 :: int]. 0 \<le> b"
    by simp
  have big_rr: "[2147483647, 2147483647 :: int] \<noteq> []" "(0::int) < 2147483647"
    "int (length [2147483647, 2147483647 :: int]) \<le> INT_MAX"
    by (simp_all add: INT_MAX_def)
  have "rr_run ?big (int (length [2147483647, 2147483647 :: int])) 2147483647 \<noteq> None"
    using rr_run_terminates [OF big_table big_bursts big_rr] by blast
  then show ?thesis
    using small by simp
qed

subsection \<open>C6: \<^verbatim>\<open>run_proc\<close> keeps the fields non-negative\<close>

text \<open>
  Claim C6, as amended. Under the preconditions of Advance (a valid \<open>target\<close>,
  \<open>1 \<le> amount \<le>\<close> the remaining burst of the target), if every remaining burst and every
  wait is a non-negative \<^verbatim>\<open>int\<close> before the call, and \<open>wait + amount\<close> is at most \<open>INT_MAX\<close>
  for every other process that has burst left, then \<^verbatim>\<open>run_proc\<close> returns and no process has a
  negative remaining burst or a negative wait afterwards.
\<close>

theorem run_proc_keeps_nonneg:
  assumes "0 \<le> target" "target < int (length procs)"
      and "1 \<le> amount" "amount \<le> burst_left (procs ! nat target)"
      and "\<forall>p\<in>set procs. 0 \<le> burst_left p \<and> 0 \<le> wait p"
      and "\<forall>p\<in>set procs. burst_left p \<le> INT_MAX \<and> wait p \<le> INT_MAX"
      and "\<forall>k<length procs. int k \<noteq> target \<and> 0 < burst_left (procs ! k) \<longrightarrow>
             wait (procs ! k) + amount \<le> INT_MAX"
  shows "\<exists>procs'. run_proc procs (int (length procs)) target amount = Inr procs' \<and>
           length procs' = length procs \<and>
           (\<forall>p\<in>set procs'. 0 \<le> burst_left p \<and> 0 \<le> wait p)"
proof -
  have ints: "\<forall>p\<in>set procs. in_int (burst_left p) \<and> in_int (wait p)"
  proof
    fix p
    assume "p \<in> set procs"
    then have "0 \<le> burst_left p \<and> 0 \<le> wait p" "burst_left p \<le> INT_MAX \<and> wait p \<le> INT_MAX"
      using assms(5,6) by simp_all
    then show "in_int (burst_left p) \<and> in_int (wait p)"
      by (simp add: in_int_def INT_MIN_def)
  qed
  have run: "run_proc procs (int (length procs)) target amount = Inr (advance procs (nat target) amount)"
    using assms(1-4) ints assms(7) by (rule run_proc_advance)
  have before: "\<And>k. k < length procs \<Longrightarrow> 0 \<le> burst_left (procs ! k) \<and> 0 \<le> wait (procs ! k)"
    using assms(5) by simp
  have "0 \<le> burst_left p \<and> 0 \<le> wait p"
    if mem: "p \<in> set (advance procs (nat target) amount)" for p
  proof -
    obtain k where k: "k < length procs" "p = advance procs (nat target) amount ! k"
      using mem by (auto simp add: in_set_conv_nth)
    show ?thesis
      using before [OF k(1)] assms(3,4) k by (auto simp add: advance_nth)
  qed
  then show ?thesis
    using run by simp
qed

text \<open>Process 1 runs its whole burst of 6 while process 0 waits.\<close>

theorem run_proc_keeps_nonneg_witness:
  "\<exists>procs'. run_proc [\<lparr>pid = 0, burst_left = 2, wait = 9\<rparr>, \<lparr>pid = 1, burst_left = 6, wait = 1\<rparr>] 2 1 6
               = Inr procs' \<and>
     0 \<le> burst_left (procs' ! 0) \<and> 0 \<le> wait (procs' ! 0) \<and>
     0 \<le> burst_left (procs' ! 1) \<and> 0 \<le> wait (procs' ! 1)"
proof -
  let ?procs = "[\<lparr>pid = 0, burst_left = 2, wait = 9\<rparr>, \<lparr>pid = 1, burst_left = 6, wait = 1\<rparr>]"
  have index: "(0::int) \<le> 1" "1 < int (length ?procs)"
    by simp_all
  have amount: "(1::int) \<le> 6" "6 \<le> burst_left (?procs ! nat 1)"
    by simp_all
  have nonneg: "\<forall>p\<in>set ?procs. 0 \<le> burst_left p \<and> 0 \<le> wait p"
    by simp
  have ints: "\<forall>p\<in>set ?procs. burst_left p \<le> INT_MAX \<and> wait p \<le> INT_MAX"
    by (simp add: INT_MAX_def)
  have room: "\<forall>k<length ?procs. int k \<noteq> 1 \<and> 0 < burst_left (?procs ! k) \<longrightarrow>
                wait (?procs ! k) + 6 \<le> INT_MAX"
    by (simp add: INT_MAX_def less_Suc_eq)
  obtain procs' where run: "run_proc ?procs (int (length ?procs)) 1 6 = Inr procs'"
    and len: "length procs' = length ?procs"
    and after: "\<forall>p\<in>set procs'. 0 \<le> burst_left p \<and> 0 \<le> wait p"
    using run_proc_keeps_nonneg [OF index amount nonneg ints room] by blast
  have "length procs' = 2"
    using len by simp
  then have "procs' ! 0 \<in> set procs'" "procs' ! 1 \<in> set procs'"
    by simp_all
  then show ?thesis
    using run after by simp
qed

text \<open>
  The claim as stated fails for a wait at the top of the \<^verbatim>\<open>int\<close> range: all its
  preconditions hold below, and \<^verbatim>\<open>procs[1].wait += 1\<close> overflows. That is undefined behaviour;
  where the addition wraps around, the wait becomes \<open>- 2147483648\<close>.
\<close>

theorem run_proc_keeps_nonneg_counterexample:
  "run_proc [\<lparr>pid = 0, burst_left = 1, wait = 0\<rparr>, \<lparr>pid = 1, burst_left = 1, wait = 2147483647\<rparr>] 2 0 1
     = Inl Overflow"
  by code_simp

subsection \<open>C7: a complete process is left alone\<close>

text \<open>
  Claim C7. Let process \<open>k\<close> of a table be complete (remaining burst 0). Then a call of
  \<^verbatim>\<open>run_proc\<close> that returns leaves its record as it is, whether another process runs or it is
  itself "run" for its remaining burst of 0, as \<^verbatim>\<open>fcfs_run\<close> does. So does the rest of an FCFS
  run and of an RR run, from whatever state of the loop: when the run returns, the wait of
  process \<open>k\<close> is what it was. And round robin never runs it again: on its own turn
  \<^verbatim>\<open>rr_run\<close> makes no call of \<^verbatim>\<open>run_proc\<close>, and \<^verbatim>\<open>rr_next\<close> never answers \<open>k\<close>.
\<close>

theorem complete_process_is_left_alone:
  assumes "k < length procs" "burst_left (procs ! k) = 0"
  shows "(c < length procs \<and> (k \<noteq> c \<or> amount = 0) \<and>
          run_proc procs (int (length procs)) (int c) amount = Inr procs' \<longrightarrow>
            procs' ! k = procs ! k) \<and>
         (fcfs_loop procs (int (length procs)) (int i) t = Inr (t', final) \<longrightarrow>
            final ! k = procs ! k) \<and>
         (rr_loop procs (int (length procs)) quantum current t turns = Some (Inr (t', final', turns')) \<longrightarrow>
            final' ! k = procs ! k) \<and>
         rr_turn procs (int (length procs)) quantum (int k) t turns = Inr (procs, t, turns) \<and>
         (int (length procs) \<le> INT_MAX \<and> c < length procs \<longrightarrow>
            rr_next (int c) procs (int (length procs)) \<noteq> Some (Inr (int k)))"
proof (intro conjI impI)
  assume "c < length procs \<and> (k \<noteq> c \<or> amount = 0) \<and>
          run_proc procs (int (length procs)) (int c) amount = Inr procs'"
  then show "procs' ! k = procs ! k"
    using run_proc_keeps_done [of procs c amount procs' k] assms by blast
next
  assume "fcfs_loop procs (int (length procs)) (int i) t = Inr (t', final)"
  then show "final ! k = procs ! k"
    using fcfs_loop_keeps_done assms by blast
next
  assume "rr_loop procs (int (length procs)) quantum current t turns = Some (Inr (t', final', turns'))"
  then show "final' ! k = procs ! k"
    using rr_loop_keeps_done assms by blast
next
  show "rr_turn procs (int (length procs)) quantum (int k) t turns = Inr (procs, t, turns)"
    using assms by (intro rr_turn_done) simp_all
next
  assume range: "int (length procs) \<le> INT_MAX \<and> c < length procs"
  let ?r = "scan_from procs (Suc c mod length procs) 0"
  have n_pos: "0 < length procs" using assms(1) by (cases procs) simp_all
  have start: "Suc c mod length procs < length procs"
    using n_pos by (rule mod_less_divisor)
  have nxt: "rr_next (int c) procs (int (length procs)) = Some (Inr ?r)"
    using range by (intro rr_next_eq) simp_all
  have "?r \<noteq> int k"
  proof (cases "?r = - 1")
    case True
    then show ?thesis by simp
  next
    case False
    then obtain j where "j < length procs" "?r = int j" "burst_left (procs ! j) \<noteq> 0"
      using scan_from_some [OF start] by blast
    then show ?thesis
      using assms(2) by auto
  qed
  then show "rr_next (int c) procs (int (length procs)) \<noteq> Some (Inr (int k))"
    using nxt by simp
qed

text \<open>
  Process 0 is complete with a wait of 2. A call of \<^verbatim>\<open>run_proc\<close> for process 1, a whole
  \<^verbatim>\<open>fcfs_run\<close> loop and a whole \<^verbatim>\<open>rr_run\<close> loop with quantum 2 all leave it as it is, and
  \<^verbatim>\<open>rr_next\<close> passes it over.
\<close>

theorem complete_process_is_left_alone_witness:
  "run_proc [\<lparr>pid = 0, burst_left = 0, wait = 2\<rparr>, \<lparr>pid = 1, burst_left = 3, wait = 0\<rparr>,
             \<lparr>pid = 2, burst_left = 4, wait = 0\<rparr>] 3 1 3 =
     Inr [\<lparr>pid = 0, burst_left = 0, wait = 2\<rparr>, \<lparr>pid = 1, burst_left = 0, wait = 0\<rparr>,
          \<lparr>pid = 2, burst_left = 4, wait = 3\<rparr>] \<and>
   (\<exists>t final. fcfs_loop [\<lparr>pid = 0, burst_left = 0, wait = 2\<rparr>, \<lparr>pid = 1, burst_left = 3, wait = 0\<rparr>,
                          \<lparr>pid = 2, burst_left = 4, wait = 0\<rparr>] 3 0 0 = Inr (t, final) \<and>
               final ! 0 = \<lparr>pid = 0, burst_left = 0, wait = 2\<rparr>) \<and>
   (\<exists>t final turns. rr_loop [\<lparr>pid = 0, burst_left = 0, wait = 2\<rparr>, \<lparr>pid = 1, burst_left = 3, wait = 0\<rparr>,
                          \<lparr>pid = 2, burst_left = 4, wait = 0\<rparr>] 3 2 0 0 0 = Some (Inr (t, final, turns)) \<and>
               final ! 0 = \<lparr>pid = 0, burst_left = 0, wait = 2\<rparr>) \<and>
   rr_next 2 [\<lparr>pid = 0, burst_left = 0, wait = 2\<rparr>, \<lparr>pid = 1, burst_left = 3, wait = 0\<rparr>,
              \<lparr>pid = 2, burst_left = 4, wait = 0\<rparr>] 3 \<noteq> Some (Inr 0)"
proof -
  let ?procs = "[\<lparr>pid = 0, burst_left = 0, wait = 2\<rparr>, \<lparr>pid = 1, burst_left = 3, wait = 0\<rparr>,
                 \<lparr>pid = 2, burst_left = 4, wait = 0\<rparr>]"
  have complete: "0 < length ?procs" "burst_left (?procs ! 0) = 0"
    by simp_all
  have run: "run_proc ?procs 3 1 3 =
     Inr [\<lparr>pid = 0, burst_left = 0, wait = 2\<rparr>, \<lparr>pid = 1, burst_left = 0, wait = 0\<rparr>,
          \<lparr>pid = 2, burst_left = 4, wait = 3\<rparr>]"
    by code_simp
  have fcfs: "fcfs_loop ?procs 3 0 0 =
     Inr (7, [\<lparr>pid = 0, burst_left = 0, wait = 2\<rparr>, \<lparr>pid = 1, burst_left = 0, wait = 0\<rparr>,
              \<lparr>pid = 2, burst_left = 0, wait = 3\<rparr>])"
    by code_simp
  have rr: "rr_loop ?procs 3 2 0 0 0 =
     Some (Inr (7, [\<lparr>pid = 0, burst_left = 0, wait = 2\<rparr>, \<lparr>pid = 1, burst_left = 0, wait = 2\<rparr>,
                    \<lparr>pid = 2, burst_left = 0, wait = 3\<rparr>], 4))"
    by code_simp
  note inst = complete_process_is_left_alone [OF complete, where c = 2 and i = 0 and t = 0
      and current = 0 and quantum = 2 and turns = 0]
  have "rr_next 2 ?procs 3 \<noteq> Some (Inr 0)"
    using inst by (simp add: INT_MAX_def)
  moreover have "\<exists>t final. fcfs_loop ?procs 3 0 0 = Inr (t, final) \<and> final ! 0 = ?procs ! 0"
    using inst fcfs by simp
  moreover have "\<exists>t final turns. rr_loop ?procs 3 2 0 0 0 = Some (Inr (t, final, turns)) \<and>
      final ! 0 = ?procs ! 0"
    using inst rr by simp
  ultimately show ?thesis
    using run by simp
qed

subsection \<open>C8: one process, bursts 7, quantum 3\<close>

text \<open>
  Claim C8. For the table built from the single burst 7 and the quantum 3, \<^verbatim>\<open>rr_run\<close>
  returns 7, after three turns. In between, \<^verbatim>\<open>rr_next\<close> is asked twice for the successor of
  index 0 in a table of length 1 whose process has burst left (4, then 1) and answers 0, the
  same index; asked a third time, with no burst left, it answers \<open>- 1\<close>.
\<close>

theorem single_process_round_robin:
  "init_procs True [7] 1 = Inr (Some [\<lparr>pid = 0, burst_left = 7, wait = 0\<rparr>]) \<and>
   rr_run [\<lparr>pid = 0, burst_left = 7, wait = 0\<rparr>] 1 3 =
     Some (Inr (7, [\<lparr>pid = 0, burst_left = 0, wait = 0\<rparr>])) \<and>
   rr_loop [\<lparr>pid = 0, burst_left = 7, wait = 0\<rparr>] 1 3 0 0 0 =
     Some (Inr (7, [\<lparr>pid = 0, burst_left = 0, wait = 0\<rparr>], 3)) \<and>
   rr_next 0 [\<lparr>pid = 0, burst_left = 4, wait = 0\<rparr>] 1 = Some (Inr 0) \<and>
   rr_next 0 [\<lparr>pid = 0, burst_left = 1, wait = 0\<rparr>] 1 = Some (Inr 0) \<and>
   rr_next 0 [\<lparr>pid = 0, burst_left = 0, wait = 0\<rparr>] 1 = Some (Inr (- 1))"
  by code_simp

subsection \<open>C9: the table that \<^verbatim>\<open>fcfs_run\<close> leaves\<close>

text \<open>
  Claim C9, as amended. For every table built from non-negative bursts whose sum is at most
  \<open>INT_MAX\<close>, \<^verbatim>\<open>fcfs_run\<close> returns and leaves every process with remaining burst 0; a process
  whose initial burst was positive has waited for the sum of the initial bursts of the
  processes before it, and a process whose initial burst was 0 has not waited.
\<close>

theorem fcfs_run_final_table:
  assumes "init_procs True bursts (int (length bursts)) = Inr (Some procs)"
      and "\<forall>b\<in>set bursts. 0 \<le> b" "sum_list bursts \<le> INT_MAX"
  shows "\<exists>t final. fcfs_run procs (int (length bursts)) = Inr (t, final) \<and>
           length final = length bursts \<and>
           (\<forall>i<length bursts.
              burst_left (final ! i) = 0 \<and>
              wait (final ! i) = (if 0 < bursts ! i then sum_list (take i bursts) else 0))"
proof -
  have procs: "procs = fcfs_state bursts 0"
    using assms(1) by (rule init_procs_table)
  have "fcfs_run procs (int (length bursts)) =
        Inr (sum_list bursts, fcfs_state bursts (length bursts))"
    using fcfs_run_table [OF assms(2,3)] procs by simp
  then show ?thesis
    by (simp add: fcfs_state_nth prefix_sum_def)
qed

text \<open>
  The bursts 5, 0, 3, 8: the processes end with the waits 0, 0, 5 and 8 and with no burst
  left.
\<close>

theorem fcfs_run_final_table_witness:
  "\<exists>t final. fcfs_run [\<lparr>pid = 0, burst_left = 5, wait = 0\<rparr>, \<lparr>pid = 1, burst_left = 0, wait = 0\<rparr>,
                        \<lparr>pid = 2, burst_left = 3, wait = 0\<rparr>, \<lparr>pid = 3, burst_left = 8, wait = 0\<rparr>] 4 =
      Inr (t, final) \<and>
     wait (final ! 0) = 0 \<and> wait (final ! 1) = 0 \<and> wait (final ! 2) = 5 \<and> wait (final ! 3) = 8 \<and>
     burst_left (final ! 0) = 0 \<and> burst_left (final ! 1) = 0 \<and> burst_left (final ! 2) = 0 \<and>
     burst_left (final ! 3) = 0"
proof -
  let ?bursts = "[5, 0, 3, 8 :: int]"
  let ?procs = "[\<lparr>pid = 0, burst_left = 5, wait = 0\<rparr>, \<lparr>pid = 1, burst_left = 0, wait = 0\<rparr>,
                 \<lparr>pid = 2, burst_left = 3, wait = 0\<rparr>, \<lparr>pid = 3, burst_left = 8, wait = 0\<rparr>]"
  have table: "init_procs True ?bursts (int (length ?bursts)) = Inr (Some ?procs)"
    by (simp add: init_procs_def upt_rec)
  have bursts: "\<forall>b\<in>set ?bursts. 0 \<le> b" "sum_list ?bursts \<le> INT_MAX"
    by (simp_all add: INT_MAX_def)
  obtain t final where run: "fcfs_run ?procs (int (length ?bursts)) = Inr (t, final)"
    and fin: "\<forall>i<length ?bursts.
              burst_left (final ! i) = 0 \<and>
              wait (final ! i) = (if 0 < ?bursts ! i then sum_list (take i ?bursts) else 0)"
    using fcfs_run_final_table [OF table bursts] by blast
  have "burst_left (final ! 0) = 0 \<and> wait (final ! 0) = 0"
    using fin [rule_format, of 0] by simp
  moreover have "burst_left (final ! 1) = 0 \<and> wait (final ! 1) = 0"
    using fin [rule_format, of 1] by simp
  moreover have "burst_left (final ! 2) = 0 \<and> wait (final ! 2) = 5"
    using fin [rule_format, of 2] by (simp add: numeral_2_eq_2)
  moreover have "burst_left (final ! 3) = 0 \<and> wait (final ! 3) = 8"
    using fin [rule_format, of 3] by (simp add: numeral_3_eq_3)
  ultimately show ?thesis
    using run by simp
qed

text \<open>
  The claim as stated fails for bursts that do not sum to an \<^verbatim>\<open>int\<close>. For the bursts
  2147483647, 1, 1 the last process would have to end with a wait of 2147483648: while
  process 1 runs, \<^verbatim>\<open>procs[2].wait += 1\<close> overflows, which is undefined behaviour.
\<close>

theorem fcfs_run_final_table_counterexample:
  "init_procs True [2147483647, 1, 1] 3 =
     Inr (Some [\<lparr>pid = 0, burst_left = 2147483647, wait = 0\<rparr>, \<lparr>pid = 1, burst_left = 1, wait = 0\<rparr>,
                \<lparr>pid = 2, burst_left = 1, wait = 0\<rparr>]) \<and>
   fcfs_run [\<lparr>pid = 0, burst_left = 2147483647, wait = 0\<rparr>, \<lparr>pid = 1, burst_left = 1, wait = 0\<rparr>,
             \<lparr>pid = 2, burst_left = 1, wait = 0\<rparr>] 3 = Inl Overflow"
  by code_simp

subsection \<open>C10: with a long quantum, round robin is first come, first served\<close>

text \<open>
  Claim C10. For every non-empty table built from non-negative bursts and every quantum that
  is at least the largest burst, \<^verbatim>\<open>rr_run\<close> ends as \<^verbatim>\<open>fcfs_run\<close> does on the same table: it
  returns the same time and leaves the same table, every process with the same remaining
  burst and wait. The outcomes agree for all such tables: where the bursts do not sum to an
  \<^verbatim>\<open>int\<close>, both runs stop at the same signed overflow.
\<close>

theorem rr_run_with_long_quantum_is_fcfs_run:
  assumes "init_procs True bursts (int (length bursts)) = Inr (Some procs)"
      and "\<forall>b\<in>set bursts. 0 \<le> b" "bursts \<noteq> []" "int (length bursts) \<le> INT_MAX"
      and "\<forall>b\<in>set bursts. b \<le> quantum"
  shows "rr_run procs (int (length bursts)) quantum = Some (fcfs_run procs (int (length bursts)))"
proof -
  have "procs = fcfs_state bursts 0"
    using assms(1) by (rule init_procs_table)
  then show ?thesis
    using rr_run_fcfs_run [OF assms(4,2,5,3)] by simp
qed

text \<open>The bursts 5, 0, 3, 8 with quantum 8: both runs return 16 and the waits 0, 0, 5, 8.\<close>

theorem rr_run_with_long_quantum_is_fcfs_run_witness:
  "rr_run [\<lparr>pid = 0, burst_left = 5, wait = 0\<rparr>, \<lparr>pid = 1, burst_left = 0, wait = 0\<rparr>,
           \<lparr>pid = 2, burst_left = 3, wait = 0\<rparr>, \<lparr>pid = 3, burst_left = 8, wait = 0\<rparr>] 4 8 =
     Some (Inr (16, [\<lparr>pid = 0, burst_left = 0, wait = 0\<rparr>, \<lparr>pid = 1, burst_left = 0, wait = 0\<rparr>,
                     \<lparr>pid = 2, burst_left = 0, wait = 5\<rparr>, \<lparr>pid = 3, burst_left = 0, wait = 8\<rparr>]))"
proof -
  let ?bursts = "[5, 0, 3, 8 :: int]"
  let ?procs = "[\<lparr>pid = 0, burst_left = 5, wait = 0\<rparr>, \<lparr>pid = 1, burst_left = 0, wait = 0\<rparr>,
                 \<lparr>pid = 2, burst_left = 3, wait = 0\<rparr>, \<lparr>pid = 3, burst_left = 8, wait = 0\<rparr>]"
  have table: "init_procs True ?bursts (int (length ?bursts)) = Inr (Some ?procs)"
    by (simp add: init_procs_def upt_rec)
  have bursts: "\<forall>b\<in>set ?bursts. 0 \<le> b" "?bursts \<noteq> []" "int (length ?bursts) \<le> INT_MAX"
    by (simp_all add: INT_MAX_def)
  have quantum: "\<forall>b\<in>set ?bursts. b \<le> 8"
    by simp
  have fcfs: "fcfs_run ?procs 4 =
     Inr (16, [\<lparr>pid = 0, burst_left = 0, wait = 0\<rparr>, \<lparr>pid = 1, burst_left = 0, wait = 0\<rparr>,
               \<lparr>pid = 2, burst_left = 0, wait = 5\<rparr>, \<lparr>pid = 3, burst_left = 0, wait = 8\<rparr>])"
    by code_simp
  show ?thesis
    using rr_run_with_long_quantum_is_fcfs_run [OF table bursts quantum] fcfs by simp
qed

end
